theory Spec2Isabelle
  imports Main "HOL-Library.Word" "HOL-Library.Sublist"
begin

section \<open>The HTTP transport as seen by one CurlStream object\<close>

text \<open>
  The reader in \<^verbatim>\<open>curlstream.cc\<close> drives libcurl's multi interface. libcurl and the
  network are outside the repository, so their behaviour is an input of the model: a
  session carries the list of things the successive calls of \<^verbatim>\<open>curl_multi_perform\<close>
  will do. Nothing is assumed about that list; theorems quantify over it.
\<close>

type_synonym byte = "8 word"

text \<open>A message of \<^verbatim>\<open>curl_multi_info_read\<close>: \<^verbatim>\<open>CURLMSG_DONE\<close> with its
  \<^verbatim>\<open>data.result\<close>, or a message of another kind.\<close>

datatype CURLMsg = CURLMSG_DONE int | CURLMSG_OTHER

definition CURLE_OK :: int where "CURLE_OK = 0"
definition CURLE_PARTIAL_FILE :: int where "CURLE_PARTIAL_FILE = 18"
definition CURLM_OK :: int where "CURLM_OK = 0"

text \<open>
  One call of \<^verbatim>\<open>curl_multi_perform\<close> and what surrounds it:
  \<^item> \<open>select_rc\<close>: 0 when the \<^verbatim>\<open>block()\<close> call made just before this perform call
    succeeds (\<^verbatim>\<open>curl_multi_timeout\<close>, \<^verbatim>\<open>curl_multi_fdset\<close> and \<^verbatim>\<open>select\<close>);
  \<^item> \<open>multi_rc\<close>: the \<^verbatim>\<open>CURLMcode\<close> returned;
  \<^item> \<open>written\<close>: the body pieces handed to \<^verbatim>\<open>writefunction\<close> during the call, in order;
  \<^item> \<open>getinfo_rc\<close>, \<open>getinfo_code\<close>: what \<^verbatim>\<open>curl_easy_getinfo(CURLINFO_RESPONSE_CODE)\<close>
    returns and reports after the call (0 while no response code has been received);
  \<^item> \<open>still_running\<close>: the counter set by the call;
  \<^item> \<open>info_msgs\<close>: the messages \<^verbatim>\<open>curl_multi_info_read\<close> yields after the call;
  \<^item> \<open>errno_left\<close>: the value that the library calls of this round (\<^verbatim>\<open>select\<close>,
    \<^verbatim>\<open>curl_multi_perform\<close> and the others) leave in \<^verbatim>\<open>errno\<close>, or \<open>None\<close> when they leave
    \<^verbatim>\<open>errno\<close> as it is. libcurl and the system calls under it write \<^verbatim>\<open>errno\<close> freely, also
    when they succeed.
\<close>

record perform_step =
  select_rc :: int
  multi_rc :: int
  written :: "byte list list"
  getinfo_rc :: int
  getinfo_code :: int
  still_running :: int
  info_msgs :: "CURLMsg list"
  errno_left :: "int option"

text \<open>
  Which libcurl set-up call of \<^verbatim>\<open>CurlStream::open\<close> fails, if any. A session is what the
  network and libcurl hold for one request: the outcome of the set-up calls, the value
  these calls leave in \<^verbatim>\<open>errno\<close> (\<open>None\<close>: they leave it as it is) and the perform calls to
  come.
\<close>

datatype curl_setup =
  SetupOk | GlobalInitFails | MultiInitFails | EasyInitFails | AddHandleFails | SetoptFails

record session =
  sess_setup :: curl_setup
  setup_errno :: "int option"
  sess_script :: "perform_step list"

text \<open>
  How a call ends: it returns a value, it stops at a failed \<^verbatim>\<open>assert\<close>, or it is still
  in its wait loop when the transport's script is used up (the transport never makes
  progress again, so the call does not return).
\<close>

datatype 'a outcome = Returned 'a | AssertFailed | Waiting

section \<open>FifoBuffer\<close>

text \<open>\<^verbatim>\<open>FifoBuffer::write\<close>: a piece of length 0 is dropped.\<close>

definition fifo_write :: "byte list list \<Rightarrow> byte list \<Rightarrow> byte list list" where
  "fifo_write q s = (if 0 < length s then q @ [s] else q)"

text \<open>\<^verbatim>\<open>FifoBuffer::readsome\<close>: the count, the bytes copied to the caller and the new queue.\<close>

definition readsome :: "byte list list \<Rightarrow> nat \<Rightarrow> nat \<times> byte list \<times> byte list list" where
  "readsome q n =
     (case q of
        [] \<Rightarrow> (0, [], q)
      | front # rest \<Rightarrow>
          if n = 0 then (0, [], q)
          else
            let fs = length front;
                neff = min fs n;
                remainder = (if neff < fs then drop neff front else [])
            in (neff, take neff front,
                if 0 < length remainder then remainder # rest else rest))"

section \<open>CurlStream\<close>

text \<open>
  The members that the control flow reads; a member \<^verbatim>\<open>x_\<close> of the class is the field
  \<open>x_m\<close> here, since a name cannot end in an underscore. \<open>curl_setup\<close> and \<open>curl_script\<close> are the
  libcurl side of the object: what set-up will do and what the perform calls still to
  come will do. (\<^verbatim>\<open>url_\<close>, \<^verbatim>\<open>ofs_\<close> and the header helpers are never read.)
\<close>

record CurlStream =
  h_m :: bool
  m_m :: bool
  response_code_m :: int
  buf_m :: "byte list list"
  final_msg_m :: "int option"
  final_read_rc_m :: int
  curl_setup :: curl_setup
  curl_script :: "perform_step list"

definition CurlStream_new :: "session \<Rightarrow> CurlStream" where
  "CurlStream_new sess =
     \<lparr> h_m = False, m_m = False, response_code_m = 0, buf_m = [], final_msg_m = None,
       final_read_rc_m = 1, curl_setup = sess_setup sess, curl_script = sess_script sess \<rparr>"

text \<open>The loop over \<^verbatim>\<open>curl_multi_info_read\<close>: the last \<^verbatim>\<open>CURLMSG_DONE\<close> wins.\<close>

fun read_msgs :: "CURLMsg list \<Rightarrow> int option \<Rightarrow> int option" where
  "read_msgs [] fm = fm"
| "read_msgs (CURLMSG_DONE r # ms) fm = read_msgs ms (Some r)"
| "read_msgs (CURLMSG_OTHER # ms) fm = read_msgs ms fm"

definition perform :: "CurlStream \<Rightarrow> int outcome \<times> CurlStream" where
  "perform st =
     (if final_msg_m st \<noteq> None then (Returned 0, st)
      else
        case curl_script st of
          [] \<Rightarrow> (Waiting, st)
        | p # ps \<Rightarrow>
            let st1 = st\<lparr> curl_script := ps, buf_m := foldl fifo_write (buf_m st) (written p) \<rparr>
            in
              if multi_rc p \<noteq> CURLM_OK then (Returned (- 1), st1)
              else if response_code_m st1 = 0 \<and> getinfo_rc p \<noteq> CURLE_OK then (Returned (- 1), st1)
              else
                let st2 = (if response_code_m st1 = 0
                           then st1\<lparr> response_code_m := getinfo_code p \<rparr> else st1)
                in
                  if still_running p = 0 then
                    (case read_msgs (info_msgs p) (final_msg_m st2) of
                       None \<Rightarrow> (AssertFailed, st2)
                     | Some r \<Rightarrow> (Returned 0, st2\<lparr> final_msg_m := Some r \<rparr>))
                  else (Returned 0, st2))"

definition final_status :: "CurlStream \<Rightarrow> int outcome" where
  "final_status st =
     (case final_msg_m st of
        None \<Rightarrow> AssertFailed
      | Some r \<Rightarrow> if r = CURLE_OK then Returned 0 else Returned (- 1))"

definition block :: "CurlStream \<Rightarrow> int outcome" where
  "block st =
     (case curl_script st of
        [] \<Rightarrow> Waiting
      | p # ps \<Rightarrow> if select_rc p \<noteq> 0 then Returned (- 1) else Returned 0)"

lemma perform_consumes:
  "final_msg_m st = None \<Longrightarrow> perform st = (Returned s, st') \<Longrightarrow>
   length (curl_script st') < length (curl_script st)"
  by (auto simp: perform_def Let_def split: list.splits if_splits option.splits)

text \<open>The wait loop of \<^verbatim>\<open>open\<close>: until the response code is known or the transfer is over.\<close>

function open_wait :: "CurlStream \<Rightarrow> int outcome \<times> CurlStream" where
  "open_wait st =
     (if final_msg_m st = None \<and> response_code_m st = 0 then
        (case block st of
           Returned s \<Rightarrow>
             if s \<noteq> 0 then (Returned s, st)
             else
               (case perform st of
                  (Returned s', st') \<Rightarrow> if s' \<noteq> 0 then (Returned s', st') else open_wait st'
                | (AssertFailed, st') \<Rightarrow> (AssertFailed, st')
                | (Waiting, st') \<Rightarrow> (Waiting, st'))
         | AssertFailed \<Rightarrow> (AssertFailed, st)
         | Waiting \<Rightarrow> (Waiting, st))
      else (Returned 0, st))"
  by pat_completeness auto
termination
  by (relation "measure (\<lambda>st. length (curl_script st))") (auto intro: perform_consumes [OF _ sym])

text \<open>The wait loop of \<^verbatim>\<open>read\<close>: until body bytes are buffered or the transfer is over.\<close>

function read_wait :: "CurlStream \<Rightarrow> int outcome \<times> CurlStream" where
  "read_wait st =
     (if final_msg_m st = None \<and> buf_m st = [] then
        (case block st of
           Returned s \<Rightarrow>
             if s \<noteq> 0 then (Returned s, st)
             else
               (case perform st of
                  (Returned s', st') \<Rightarrow> if s' \<noteq> 0 then (Returned s', st') else read_wait st'
                | (AssertFailed, st') \<Rightarrow> (AssertFailed, st')
                | (Waiting, st') \<Rightarrow> (Waiting, st'))
         | AssertFailed \<Rightarrow> (AssertFailed, st)
         | Waiting \<Rightarrow> (Waiting, st))
      else (Returned 0, st))"
  by pat_completeness auto
termination
  by (relation "measure (\<lambda>st. length (curl_script st))") (auto intro: perform_consumes [OF _ sym])

text \<open>The two loop equations are unfolded by hand, one round at a time.\<close>

declare open_wait.simps [simp del]
declare read_wait.simps [simp del]

text \<open>The checks of \<^verbatim>\<open>open\<close> after its wait loop (from \<^verbatim>\<open>if (final_msg_ != nullptr)\<close> on).\<close>

definition open_checks :: "CurlStream \<Rightarrow> int \<Rightarrow> int outcome \<times> CurlStream" where
  "open_checks st ofs =
     (if final_msg_m st \<noteq> None \<and> final_status st \<noteq> Returned 0
      then (Returned (- 1), st\<lparr> final_read_rc_m := - 1 \<rparr>)
      else if response_code_m st = 0 then (AssertFailed, st)
      else if response_code_m st < 200 \<or> 299 < response_code_m st then (Returned (- 4), st)
      else if 0 < ofs \<and> response_code_m st \<noteq> 206 then (Returned (- 8), st)
      else (Returned 0, st))"

definition CurlStream_open :: "CurlStream \<Rightarrow> int \<Rightarrow> int outcome \<times> CurlStream" where
  "CurlStream_open st ofs =
     (if m_m st \<or> h_m st then (Returned (- 2), st)
      else
        case curl_setup st of
          GlobalInitFails \<Rightarrow> (Returned (- 1), st)
        | MultiInitFails \<Rightarrow> (Returned (- 1), st)
        | EasyInitFails \<Rightarrow> (Returned (- 1), st\<lparr> m_m := True \<rparr>)
        | AddHandleFails \<Rightarrow> (Returned (- 1), st\<lparr> m_m := True, h_m := False \<rparr>)
        | SetoptFails \<Rightarrow> (Returned (- 1), st\<lparr> m_m := True, h_m := True \<rparr>)
        | SetupOk \<Rightarrow>
            (case perform (st\<lparr> m_m := True, h_m := True \<rparr>) of
               (Returned s, st1) \<Rightarrow>
                 if s \<noteq> 0 then (Returned s, st1)
                 else
                   (case open_wait st1 of
                      (Returned s2, st2) \<Rightarrow>
                        if s2 \<noteq> 0 then (Returned s2, st2) else open_checks st2 ofs
                    | (AssertFailed, st2) \<Rightarrow> (AssertFailed, st2)
                    | (Waiting, st2) \<Rightarrow> (Waiting, st2))
             | (AssertFailed, st1) \<Rightarrow> (AssertFailed, st1)
             | (Waiting, st1) \<Rightarrow> (Waiting, st1)))"

definition response_code :: "CurlStream \<Rightarrow> int" where
  "response_code st = response_code_m st"

text \<open>The last statement of \<^verbatim>\<open>read\<close>: \<^verbatim>\<open>return (ssize_t) buf_.readsome((char*)buf, n)\<close>.\<close>

definition read_some :: "CurlStream \<Rightarrow> nat \<Rightarrow> int outcome \<times> byte list \<times> CurlStream" where
  "read_some st n =
     (case readsome (buf_m st) n of
        (neff, bytes, q) \<Rightarrow> (Returned (int neff), bytes, st\<lparr> buf_m := q \<rparr>))"

text \<open>\<^verbatim>\<open>CurlStream::read\<close>: the value returned, the bytes stored into \<^verbatim>\<open>buf\<close>, the new object.\<close>

definition CurlStream_read :: "CurlStream \<Rightarrow> nat \<Rightarrow> int outcome \<times> byte list \<times> CurlStream" where
  "CurlStream_read st n =
     (if final_read_rc_m st \<le> 0 then (Returned (final_read_rc_m st), [], st)
      else if \<not> h_m st then (Returned (- 2), [], st)
      else if response_code_m st < 200 \<or> 299 < response_code_m st then (Returned (- 2), [], st)
      else if buf_m st = [] then
        (case perform st of
           (Returned s, st1) \<Rightarrow>
             if s \<noteq> 0 then (Returned s, [], st1)
             else
               (case read_wait st1 of
                  (Returned s2, st2) \<Rightarrow>
                    if s2 \<noteq> 0 then (Returned s2, [], st2)
                    else if buf_m st2 = [] then
                      (case final_status st2 of
                         Returned r \<Rightarrow> (Returned r, [], st2\<lparr> final_read_rc_m := r \<rparr>)
                       | AssertFailed \<Rightarrow> (AssertFailed, [], st2)
                       | Waiting \<Rightarrow> (Waiting, [], st2))
                    else read_some st2 n
                | (AssertFailed, st2) \<Rightarrow> (AssertFailed, [], st2)
                | (Waiting, st2) \<Rightarrow> (Waiting, [], st2))
         | (AssertFailed, st1) \<Rightarrow> (AssertFailed, [], st1)
         | (Waiting, st1) \<Rightarrow> (Waiting, [], st1))
      else read_some st n)"

section \<open>The C API: CurlStreamBox, errno and the requests issued\<close>

text \<open>\<^verbatim>\<open>errno\<close> values, as numbered on Linux.\<close>

definition EPERM :: int where "EPERM = 1"
definition ENOENT :: int where "ENOENT = 2"
definition EIO :: int where "EIO = 5"
definition EAGAIN :: int where "EAGAIN = 11"
definition EACCES :: int where "EACCES = 13"
definition EINVAL :: int where "EINVAL = 22"
definition ESPIPE :: int where "ESPIPE = 29"
definition EPIPE :: int where "EPIPE = 32"
definition ETIMEDOUT :: int where "ETIMEDOUT = 110"

definition SEEK_SET :: int where "SEEK_SET = 0"
definition SEEK_CUR :: int where "SEEK_CUR = 1"
definition SEEK_END :: int where "SEEK_END = 2"

text \<open>
  A GET request as \<^verbatim>\<open>CurlStream::open\<close> prepares it: the URL and the offset of the header
  \<^verbatim>\<open>range: bytes=<ofs>-\<close>, which is sent exactly when \<^verbatim>\<open>ofs\<close> is not 0.
\<close>

type_synonym request = "string \<times> int option"

definition request_of :: "string \<Rightarrow> int \<Rightarrow> request" where
  "request_of u ofs = (u, if ofs \<noteq> 0 then Some ofs else None)"

text \<open>
  What lies outside the stream objects: \<^verbatim>\<open>errno\<close>, the requests prepared so far (oldest
  first) and the network, which answers a request, given the earlier ones, with a session.
\<close>

record world =
  errno :: int
  requests :: "request list"
  network :: "request list \<Rightarrow> request \<Rightarrow> session"

record CurlStreamBox =
  url :: string
  ofs :: int
  stm :: "CurlStream option"

text \<open>
  \<^verbatim>\<open>errno\<close> is a global that the library calls made for a stream overwrite. The calls
  made between two states of an object are the rounds consumed from its script
  (\<open>steps_run\<close>), and \<open>errno_after\<close> is \<^verbatim>\<open>errno\<close> after them. \<open>lib_errno\<close> is \<^verbatim>\<open>errno\<close> as the
  library calls of \<^verbatim>\<open>CurlStream::open\<close> on a new object leave it, the set-up calls first.
  The clean-up calls of \<^verbatim>\<open>~CurlStream\<close> are taken to leave \<^verbatim>\<open>errno\<close> as it is.
\<close>

definition errno_after :: "perform_step list \<Rightarrow> int \<Rightarrow> int" where
  "errno_after ps e = foldl (\<lambda>e p. case errno_left p of None \<Rightarrow> e | Some e' \<Rightarrow> e') e ps"

definition steps_run :: "CurlStream \<Rightarrow> CurlStream \<Rightarrow> perform_step list" where
  "steps_run st st' =
     take (length (curl_script st) - length (curl_script st')) (curl_script st)"

definition lib_errno :: "session \<Rightarrow> CurlStream \<Rightarrow> int \<Rightarrow> int" where
  "lib_errno sess st e =
     errno_after (steps_run (CurlStream_new sess) st)
       (case setup_errno sess of None \<Rightarrow> e | Some e' \<Rightarrow> e')"

text \<open>The \<^verbatim>\<open>switch\<close> of \<^verbatim>\<open>open_helper\<close>.\<close>

definition errno_of_response :: "int \<Rightarrow> int" where
  "errno_of_response ret =
     (if ret = 401 then EPERM
      else if ret = 403 then EACCES
      else if ret = 404 then ENOENT
      else if ret = 407 then EPERM
      else if ret = 408 then ETIMEDOUT
      else if ret = 410 then ENOENT
      else if ret = 503 then EAGAIN
      else if ret = 504 then ETIMEDOUT
      else if 400 \<le> ret \<and> ret < 500 then EINVAL else EIO)"

text \<open>
  \<^verbatim>\<open>open_helper\<close>. When \<^verbatim>\<open>open\<close> succeeds \<^verbatim>\<open>errno\<close> is not assigned, so it is what the
  library calls of \<^verbatim>\<open>open\<close> left; when it fails \<^verbatim>\<open>errno\<close> is assigned after them.
\<close>

definition open_helper :: "world \<Rightarrow> CurlStreamBox \<Rightarrow> int outcome \<times> CurlStreamBox \<times> world" where
  "open_helper w s =
     (let req = request_of (url s) (ofs s);
          sess = network w (requests w) req;
          w1 = w\<lparr> requests := requests w @ [req] \<rparr>
      in
        case CurlStream_open (CurlStream_new sess) (ofs s) of
          (Returned c, st) \<Rightarrow>
            if c = 0
            then (Returned 0, s\<lparr> stm := Some st \<rparr>, w1\<lparr> errno := lib_errno sess st (errno w) \<rparr>)
            else (Returned c, s\<lparr> stm := None \<rparr>,
                  w1\<lparr> errno := errno_of_response (response_code st) \<rparr>)
        | (AssertFailed, st) \<Rightarrow> (AssertFailed, s\<lparr> stm := Some st \<rparr>, w1)
        | (Waiting, st) \<Rightarrow> (Waiting, s\<lparr> stm := Some st \<rparr>, w1))"

text \<open>The object that \<^verbatim>\<open>open_helper\<close> creates and opens, as \<^verbatim>\<open>open\<close> leaves it.\<close>

definition lazy_session :: "world \<Rightarrow> CurlStreamBox \<Rightarrow> CurlStream" where
  "lazy_session w s =
     snd (CurlStream_open (CurlStream_new (network w (requests w) (request_of (url s) (ofs s))))
            (ofs s))"

definition curlstream_open ::
  "world \<Rightarrow> string \<Rightarrow> int \<Rightarrow> int outcome \<times> CurlStreamBox option \<times> world" where
  "curlstream_open w u off =
     (case open_helper w \<lparr> url = u, ofs = off, stm = None \<rparr> of
        (Returned c, box, w') \<Rightarrow>
          if c \<noteq> 0 then (Returned c, None, w') else (Returned 0, Some box, w')
      | (AssertFailed, box, w') \<Rightarrow> (AssertFailed, None, w')
      | (Waiting, box, w') \<Rightarrow> (Waiting, None, w'))"

text \<open>\<^verbatim>\<open>int c = s->stm->read(buf,n)\<close> narrows \<^verbatim>\<open>ssize_t\<close> to a 32-bit \<^verbatim>\<open>int\<close>.\<close>

definition int_of_ssize :: "int \<Rightarrow> int" where
  "int_of_ssize x = (x + 2 ^ 31) mod 2 ^ 32 - 2 ^ 31"

text \<open>
  The part of \<^verbatim>\<open>curlstream_read\<close> after the lazy open: \<^verbatim>\<open>errno = EIO\<close> is assigned when the
  value is not 0; otherwise \<^verbatim>\<open>errno\<close> is what the library calls of the \<^verbatim>\<open>read\<close> left.
\<close>

definition read_stm ::
  "world \<Rightarrow> CurlStreamBox \<Rightarrow> CurlStream \<Rightarrow> nat \<Rightarrow>
   int outcome \<times> byte list \<times> CurlStreamBox \<times> world" where
  "read_stm w s st n =
     (case CurlStream_read st n of
        (Returned r, bytes, st') \<Rightarrow>
          let c = int_of_ssize r
          in (Returned c, bytes, s\<lparr> stm := Some st' \<rparr>,
              if c \<noteq> 0 then w\<lparr> errno := EIO \<rparr>
              else w\<lparr> errno := errno_after (steps_run st st') (errno w) \<rparr>)
      | (AssertFailed, bytes, st') \<Rightarrow> (AssertFailed, bytes, s\<lparr> stm := Some st' \<rparr>, w)
      | (Waiting, bytes, st') \<Rightarrow> (Waiting, bytes, s\<lparr> stm := Some st' \<rparr>, w))"

definition curlstream_read ::
  "world \<Rightarrow> CurlStreamBox \<Rightarrow> nat \<Rightarrow> int outcome \<times> byte list \<times> CurlStreamBox \<times> world" where
  "curlstream_read w s n =
     (case stm s of
        None \<Rightarrow>
          (case open_helper w s of
             (Returned c, s1, w1) \<Rightarrow>
               if c \<noteq> 0 then (Returned c, [], s1, w1)
               else (case stm s1 of
                       Some st \<Rightarrow> read_stm w1 s1 st n
                     | None \<Rightarrow> (AssertFailed, [], s1, w1))
           | (AssertFailed, s1, w1) \<Rightarrow> (AssertFailed, [], s1, w1)
           | (Waiting, s1, w1) \<Rightarrow> (Waiting, [], s1, w1))
      | Some st \<Rightarrow> read_stm w s st n)"


definition curlstream_seek ::
  "world \<Rightarrow> CurlStreamBox \<Rightarrow> int \<Rightarrow> int \<Rightarrow> int \<times> CurlStreamBox \<times> world" where
  "curlstream_seek w s off whence =
     (if whence = SEEK_SET then (off, s\<lparr> ofs := off, stm := None \<rparr>, w)
      else if whence = SEEK_CUR then (ofs s + off, s\<lparr> ofs := ofs s + off, stm := None \<rparr>, w)
      else if whence = SEEK_END then (- 1, s, w\<lparr> errno := ESPIPE \<rparr>)
      else (- 1, s, w))"

text \<open>
  The caller's loop over the backend's read, as \<^verbatim>\<open>hfile_dropall\<close> in
  \<^verbatim>\<open>http_tests.cc\<close> runs it: one read per size of the list, stopping at the first
  call that does not return a positive count. The result is how the loop ended
  (\<open>None\<close>: the list ran out first), the bytes received, the box and the world.
\<close>

fun read_calls ::
  "world \<Rightarrow> CurlStreamBox \<Rightarrow> nat list \<Rightarrow>
   int outcome option \<times> byte list \<times> CurlStreamBox \<times> world" where
  "read_calls w s [] = (None, [], s, w)"
| "read_calls w s (n # ns) =
     (case curlstream_read w s n of
        (Returned c, bytes, s', w') \<Rightarrow>
          if 0 < c then
            (case read_calls w' s' ns of
               (r, later, s'', w'') \<Rightarrow> (r, bytes @ later, s'', w''))
          else (Some (Returned c), bytes, s', w')
      | (AssertFailed, bytes, s', w') \<Rightarrow> (Some AssertFailed, bytes, s', w')
      | (Waiting, bytes, s', w') \<Rightarrow> (Some Waiting, bytes, s', w'))"

section \<open>The mock server of the tests and a transfer schedule\<close>

text \<open>
  \<^verbatim>\<open>TestHTTPd\<close> (\<^verbatim>\<open>test_httpd.cc\<close>). \<open>files_m\<close> gives the content served under a URL
  (\<open>None\<close>: no entry, or the file cannot be opened); the range header is the offset of
  \<^verbatim>\<open>bytes=<ofs>-\<close>, the only form the client sends.
\<close>

record TestHTTPd =
  files_m :: "string \<Rightarrow> byte list option"
  requests_to_fail_m :: nat
  truncate_response_m :: int

text \<open>A queued response: the code, the size announced to the client, the bytes that the
  content reader hands over before it ends.\<close>

record http_response =
  status_code :: int
  announced_size :: nat
  body_sent :: "byte list"

text \<open>
  \<^verbatim>\<open>get_range_header\<close> on \<^verbatim>\<open>bytes=<ofs>-\<close>: a negative offset prints a second dash and is
  refused; otherwise \<^verbatim>\<open>lo = ofs\<close> and \<^verbatim>\<open>hi = sz - 1\<close> (read only when \<^verbatim>\<open>lo < sz\<close>).
\<close>

definition get_range_header :: "int option \<Rightarrow> nat \<Rightarrow> (nat \<times> nat) option" where
  "get_range_header rng sz =
     (case rng of
        None \<Rightarrow> None
      | Some lo \<Rightarrow> if lo < 0 then None else Some (nat lo, sz - 1))"

definition OnRequest :: "TestHTTPd \<Rightarrow> string \<Rightarrow> int option \<Rightarrow> http_response \<times> TestHTTPd" where
  "OnRequest d u rng =
     (if requests_to_fail_m d = 0 then
        (case files_m d u of
           None \<Rightarrow> (\<lparr> status_code = 404, announced_size = 0, body_sent = [] \<rparr>, d)
         | Some file \<Rightarrow>
             let sz = length file in
             (case get_range_header rng sz of
                Some (lo, hi) \<Rightarrow>
                  if lo < sz then
                    let actual = (if 0 \<le> truncate_response_m d
                                  then min (nat (truncate_response_m d)) (hi - lo + 1)
                                  else hi - lo + 1)
                    in (\<lparr> status_code = 206, announced_size = hi - lo + 1,
                          body_sent = take actual (drop lo file) \<rparr>,
                        d\<lparr> truncate_response_m := - 1 \<rparr>)
                  else (\<lparr> status_code = 416, announced_size = 0, body_sent = [] \<rparr>, d)
              | None \<Rightarrow>
                  let actual = (if 0 \<le> truncate_response_m d
                                then min (nat (truncate_response_m d)) sz else sz)
                  in (\<lparr> status_code = 200, announced_size = sz, body_sent = take actual file \<rparr>,
                      d\<lparr> truncate_response_m := - 1 \<rparr>)))
      else (\<lparr> status_code = 500, announced_size = 0, body_sent = [] \<rparr>,
            d\<lparr> requests_to_fail_m := requests_to_fail_m d - 1 \<rparr>))"

text \<open>The server after the given requests, oldest first.\<close>

fun served :: "TestHTTPd \<Rightarrow> request list \<Rightarrow> TestHTTPd" where
  "served d [] = d"
| "served d ((u, rng) # rs) = served (snd (OnRequest d u rng)) rs"

text \<open>
  One schedule by which libcurl may carry a response: a first perform call that learns
  the response code, one call per body piece of at most \<open>c\<close> bytes, and a last call
  that ends the transfer, with \<^verbatim>\<open>CURLE_OK\<close> when the body has the announced size and
  \<^verbatim>\<open>CURLE_PARTIAL_FILE\<close> otherwise (the check described at the head of
  \<^verbatim>\<open>curlstream.cc\<close>). No call of this schedule touches \<^verbatim>\<open>errno\<close>. It serves the
  concrete examples; the general theorems do not depend on it.
\<close>

definition pieces :: "nat \<Rightarrow> byte list \<Rightarrow> byte list list" where
  "pieces c xs = map (\<lambda>i. take c (drop (i * c) xs)) [0 ..< (length xs + c - 1) div c]"

definition quiet_step :: "int \<Rightarrow> perform_step" where
  "quiet_step code =
     \<lparr> select_rc = 0, multi_rc = CURLM_OK, written = [], getinfo_rc = CURLE_OK,
       getinfo_code = code, still_running = 1, info_msgs = [], errno_left = None \<rparr>"

definition curl_transfer :: "nat \<Rightarrow> http_response \<Rightarrow> session" where
  "curl_transfer c r =
     \<lparr> sess_setup = SetupOk, setup_errno = None,
       sess_script =
         quiet_step (status_code r)
         # map (\<lambda>piece. (quiet_step (status_code r))\<lparr> written := [piece] \<rparr>)
               (pieces c (body_sent r))
         @ [(quiet_step (status_code r))
              \<lparr> still_running := 0,
                info_msgs := [CURLMSG_DONE (if length (body_sent r) = announced_size r
                                            then CURLE_OK else CURLE_PARTIAL_FILE)] \<rparr>] \<rparr>"

definition mock_network :: "TestHTTPd \<Rightarrow> nat \<Rightarrow> request list \<Rightarrow> request \<Rightarrow> session" where
  "mock_network d c earlier req =
     curl_transfer c (fst (OnRequest (served d earlier) (fst req) (snd req)))"

text \<open>The test set-up in small: one URL serving the bytes 1 to 4, pieces of one byte.\<close>

definition test_url :: string where
  "test_url = ''http://localhost:8378/f''"

definition test_httpd :: "int \<Rightarrow> TestHTTPd" where
  "test_httpd trunc =
     \<lparr> files_m = (\<lambda>u. if u = test_url then Some [1, 2, 3, 4] else None),
       requests_to_fail_m = 0, truncate_response_m = trunc \<rparr>"

definition test_world :: "int \<Rightarrow> world" where
  "test_world trunc = \<lparr> errno = 0, requests = [], network = mock_network (test_httpd trunc) 1 \<rparr>"

text \<open>A stream on the test URL just after \<^verbatim>\<open>curlstream_open\<close>, and after a following
  \<^verbatim>\<open>curlstream_seek\<close> with \<^verbatim>\<open>SEEK_SET\<close>.\<close>

definition test_open :: "int \<Rightarrow> CurlStreamBox \<times> world" where
  "test_open trunc =
     (case curlstream_open (test_world trunc) test_url 0 of
        (r, Some b, w) \<Rightarrow> (b, w)
      | (r, None, w) \<Rightarrow> (\<lparr> url = test_url, ofs = 0, stm = None \<rparr>, w))"

definition test_seek :: "int \<Rightarrow> int \<Rightarrow> CurlStreamBox \<times> world" where
  "test_seek trunc k =
     (case test_open trunc of
        (b, w) \<Rightarrow> snd (curlstream_seek w b k SEEK_SET))"

text \<open>A new object after \<^verbatim>\<open>open\<close> at offset 0, for a given session.\<close>

definition opened :: "session \<Rightarrow> CurlStream" where
  "opened sess = snd (CurlStream_open (CurlStream_new sess) 0)"

text \<open>A session in which the \<^verbatim>\<open>select\<close> wait fails once (as when a signal interrupts
  it) before a body piece arrives.\<close>

definition flaky_session :: session where
  "flaky_session =
     \<lparr> sess_setup = SetupOk, setup_errno = None,
       sess_script =
         [quiet_step 200, quiet_step 200,
          (quiet_step 200)\<lparr> select_rc := - 1, written := [[7]] \<rparr>] \<rparr>"

text \<open>
  A session for an empty resource in which the library writes \<^verbatim>\<open>errno\<close>: its single perform
  round connects, learns the code 200 and ends the transfer, and leaves 115
  (\<^verbatim>\<open>EINPROGRESS\<close>, as a non-blocking \<^verbatim>\<open>connect\<close> does) in \<^verbatim>\<open>errno\<close>. \<open>connect_world\<close> answers
  every request with it and starts with \<^verbatim>\<open>errno = 77\<close>.
\<close>

definition connect_session :: session where
  "connect_session =
     \<lparr> sess_setup = SetupOk, setup_errno = None,
       sess_script =
         [(quiet_step 200)\<lparr> still_running := 0, info_msgs := [CURLMSG_DONE CURLE_OK],
                             errno_left := Some 115 \<rparr>] \<rparr>"

definition connect_world :: world where
  "connect_world = \<lparr> errno = 77, requests = [], network = (\<lambda>earlier req. connect_session) \<rparr>"

text \<open>
  A session in which the response code is known only after the second perform round, and
  a network that answers every request with it.
\<close>

definition late_session :: "int \<Rightarrow> session" where
  "late_session code =
     \<lparr> sess_setup = SetupOk, setup_errno = None,
       sess_script =
         [quiet_step 0, quiet_step code, (quiet_step code)\<lparr> written := [[1]] \<rparr>,
          (quiet_step code)\<lparr> still_running := 0, info_msgs := [CURLMSG_DONE CURLE_OK] \<rparr>] \<rparr>"

definition late_world :: "int \<Rightarrow> world" where
  "late_world code = \<lparr> errno = 0, requests = [], network = (\<lambda>earlier req. late_session code) \<rparr>"


section \<open>Transfers that run to their end\<close>

text \<open>A perform call in which nothing on the client side goes wrong.\<close>

definition healthy :: "perform_step \<Rightarrow> bool" where
  "healthy p \<longleftrightarrow> select_rc p = 0 \<and> multi_rc p = CURLM_OK \<and> getinfo_rc p = CURLE_OK"

text \<open>
  \<open>transfer_ends sc e\<close>: the script \<open>sc\<close> is a transfer that libcurl carries to its
  end. Every call is healthy, every call but the last leaves the transfer running, and
  the last call ends it with the result \<open>e\<close>: \<^verbatim>\<open>CURLE_OK\<close> for a complete response, an
  error such as \<^verbatim>\<open>CURLE_PARTIAL_FILE\<close> for a response cut short. \<open>body_of sc\<close> is the
  body it delivers. How the body is cut into pieces and calls is left open.
\<close>

fun transfer_ends :: "perform_step list \<Rightarrow> int \<Rightarrow> bool" where
  "transfer_ends [] e = False"
| "transfer_ends (p # ps) e =
     (healthy p \<and>
      (if ps = [] then still_running p = 0 \<and> read_msgs (info_msgs p) None = Some e
       else still_running p \<noteq> 0 \<and> transfer_ends ps e))"

definition body_of :: "perform_step list \<Rightarrow> byte list" where
  "body_of sc = concat (concat (map written sc))"

text \<open>
  The state of an open object during such a transfer: \<open>P\<close> is what the caller has still
  to receive, the buffered pieces followed by what the script will deliver.
\<close>

definition carrying :: "CurlStream \<Rightarrow> byte list \<Rightarrow> int \<Rightarrow> bool" where
  "carrying st P e \<longleftrightarrow>
     h_m st \<and> 0 < final_read_rc_m st \<and> [] \<notin> set (buf_m st) \<and>
     (case final_msg_m st of
        None \<Rightarrow> transfer_ends (curl_script st) e \<and> P = concat (buf_m st) @ body_of (curl_script st)
      | Some e' \<Rightarrow> e' = e \<and> P = concat (buf_m st))"

text \<open>
  The library calls that a \<^verbatim>\<open>curlstream_read\<close> on the box \<open>s\<close> can make leave \<^verbatim>\<open>errno\<close> as
  it is: the rounds still to come of its session or, when the box has no session, the
  set-up and the rounds of the session that the lazy open will get.
\<close>

definition errno_quiet :: "world \<Rightarrow> CurlStreamBox \<Rightarrow> bool" where
  "errno_quiet w s \<longleftrightarrow>
     (case stm s of
        Some st \<Rightarrow> list_all (\<lambda>p. errno_left p = None) (curl_script st)
      | None \<Rightarrow>
          setup_errno (network w (requests w) (request_of (url s) (ofs s))) = None
          \<and> list_all (\<lambda>p. errno_left p = None)
               (sess_script (network w (requests w) (request_of (url s) (ofs s)))))"

text \<open>
  \<open>code_arrives sc c\<close>: in the script \<open>sc\<close> the server's response code \<open>c\<close> reaches the client.
  The rounds are healthy, report no code and leave the transfer running, up to a round
  that reports the code \<open>c\<close>, which is not 0; that round leaves the transfer running or
  ends it without an error (as for an empty body). What follows it is left open.
\<close>

fun code_arrives :: "perform_step list \<Rightarrow> int \<Rightarrow> bool" where
  "code_arrives [] c = False"
| "code_arrives (p # ps) c =
     (healthy p \<and>
      (if getinfo_code p \<noteq> 0
       then getinfo_code p = c
            \<and> (still_running p \<noteq> 0 \<or> read_msgs (info_msgs p) None = Some CURLE_OK)
       else still_running p \<noteq> 0 \<and> code_arrives ps c))"

section \<open>The buffered layer (hStream)\<close>

text \<open>
  The buffered layer of the library, \<^verbatim>\<open>hfile.c\<close> with \<^verbatim>\<open>hfile_internal.h\<close>, is not among the
  sources: of it there are only a backend that plugs into it (\<^verbatim>\<open>hfile_net.c\<close>) and the
  test program that calls it (\<^verbatim>\<open>test/hfile.c\<close>). This section follows the spec, sections 3
  and 4.1. A backend call can stop at a failed assertion or never return, as the calls of
  the HTTP reader can; the buffered layer passes that on.
\<close>

text \<open>
  Modelled from the spec: the mode of a stream, read or write, chosen at
  \<^verbatim>\<open>hopen\<close> (\<^verbatim>\<open>hfile_internal.h\<close> is not among the
  sources).
\<close>

datatype hmode = ReadMode | WriteMode

text \<open>
  Modelled from the spec: the backend capability record of
  \<^verbatim>\<open>hfile_internal.h\<close>, which is not among the sources. Its entries are
  \<open>read\<close>, \<open>write\<close>, \<open>seek\<close>, \<open>flush\<close>,
  \<open>close\<close>, in the order of the initialiser of
  \<^verbatim>\<open>net_backend\<close> in \<^verbatim>\<open>hfile_net.c\<close>;
  \<open>close\<close> is mandatory, every other entry may be null (\<open>None\<close>),
  meaning unsupported. A backend function takes the backend's part of the stream and returns it
  updated; a read returns the count and the bytes it stored. \<open>be_errno\<close> reads the
  \<^verbatim>\<open>errno\<close> the backend left, which the buffered layer copies into the
  stream's sticky error.
\<close>

record 'b hFILE_backend =
  be_read :: "('b \<Rightarrow> nat \<Rightarrow> (int \<times> byte list \<times> 'b) outcome) option"
  be_write :: "('b \<Rightarrow> byte list \<Rightarrow> (int \<times> 'b) outcome) option"
  be_seek :: "('b \<Rightarrow> int \<Rightarrow> int \<Rightarrow> (int \<times> 'b) outcome) option"
  be_flush :: "('b \<Rightarrow> (int \<times> 'b) outcome) option"
  be_close :: "'b \<Rightarrow> (int \<times> 'b) outcome"
  be_errno :: "'b \<Rightarrow> int"

text \<open>
  Modelled from the spec: the fields of an hStream (section 3), declared in the missing
  \<^verbatim>\<open>hfile_internal.h\<close>. \<open>begin\<close> and \<open>end\<close> are
  written \<open>hbegin\<close> and \<open>hend\<close>; the valid bytes are
  \<open>buffer[hbegin..hend)\<close>; \<open>offset\<close> is the logical position at index
  \<open>hbegin\<close>; \<open>bstate\<close> is the backend's own part of the structure (as
  \<^verbatim>\<open>hFILE_net\<close> extends \<^verbatim>\<open>hFILE\<close> in
  \<^verbatim>\<open>hfile_net.c\<close>).
\<close>

record 'b hFILE =
  buffer :: "byte list"
  hbegin :: nat
  hend :: nat
  mode :: hmode
  at_eof :: bool
  err :: int
  offset :: int
  backend :: "'b hFILE_backend"
  bstate :: 'b

text \<open>
  The \<^verbatim>\<open>errno\<close> value of an unsupported operation, and the
  \<^verbatim>\<open>EOF\<close> of \<^verbatim>\<open>stdio.h\<close>.
\<close>

definition ENOTSUP :: int where "ENOTSUP = 95"

definition EOF :: int where "EOF = - 1"

text \<open>
  Modelled from the spec: the fixed capacity of the buffer (the allocation in
  \<^verbatim>\<open>hfile.c\<close> is missing).
\<close>

definition capacity :: "'b hFILE \<Rightarrow> nat" where
  "capacity f = length (buffer f)"

text \<open>
  Modelled from the spec: the valid bytes, those at \<open>[hbegin, hend)\<close> of the buffer.
\<close>

definition window :: "'b hFILE \<Rightarrow> byte list" where
  "window f = take (hend f - hbegin f) (drop (hbegin f) (buffer f))"

text \<open>
  Modelled from the spec: the \<^verbatim>\<open>memcpy\<close> of \<open>data\<close> into the
  buffer at index \<open>pos\<close>; the buffer keeps its length.
\<close>

definition blit :: "byte list \<Rightarrow> nat \<Rightarrow> byte list \<Rightarrow> byte list" where
  "blit buf pos data = take (length buf) (take pos buf @ data @ drop (pos + length data) buf)"

text \<open>
  Modelled from the spec: what \<^verbatim>\<open>hfile_init\<close> (called by
  \<^verbatim>\<open>hopen_net\<close>, defined in the missing
  \<^verbatim>\<open>hfile.c\<close>) hands out: a buffer of \<open>cap\<close> bytes, empty, at
  offset 0, healthy.
\<close>

definition hfile_init :: "nat \<Rightarrow> hmode \<Rightarrow> 'b hFILE_backend \<Rightarrow> 'b \<Rightarrow> 'b hFILE" where
  "hfile_init cap m be st =
     \<lparr> buffer = replicate cap 0, hbegin = 0, hend = 0, mode = m, at_eof = False, err = 0,
       offset = 0, backend = be, bstate = st \<rparr>"

text \<open>
  Modelled from the spec: \<^verbatim>\<open>htell\<close> of the missing
  \<^verbatim>\<open>hfile.c\<close>, the caller's logical offset of section 3: \<open>offset +
  (end - begin)\<close> in write mode; in read mode \<open>offset\<close>, which is kept at
  index \<open>hbegin\<close> and so advances by what is consumed.
\<close>

definition htell :: "'b hFILE \<Rightarrow> int" where
  "htell f = (if mode f = WriteMode then offset f + int (hend f - hbegin f) else offset f)"

text \<open>
  Modelled from the spec: \<^verbatim>\<open>herrno\<close> returns the sticky error.
\<close>

definition herrno :: "'b hFILE \<Rightarrow> int" where
  "herrno f = err f"

text \<open>
  Modelled from the spec: one backend read into the free part of the buffer after
  \<open>hend\<close>, with the outcomes of the refill contract: \<open>r > 0\<close> extends
  the valid bytes by \<open>r\<close>, \<open>r = 0\<close> sets \<open>at_eof\<close>, \<open>r
  < 0\<close> sets \<open>err\<close>. A stream whose backend has no \<open>read\<close> fails
  as unsupported. (\<^verbatim>\<open>hfile.c\<close> is missing.)
\<close>

definition fill :: "'b hFILE \<Rightarrow> (int \<times> 'b hFILE) outcome" where
  "fill f =
     (case be_read (backend f) of
        None \<Rightarrow> Returned (- 1, f\<lparr> err := ENOTSUP \<rparr>)
      | Some rd \<Rightarrow>
          (case rd (bstate f) (capacity f - hend f) of
             Returned (r, data, st') \<Rightarrow>
               if 0 < r then
                 Returned (r, f\<lparr> buffer := blit (buffer f) (hend f) (take (nat r) data),
                                 hend := hend f + nat r, bstate := st' \<rparr>)
               else if r = 0 then Returned (0, f\<lparr> at_eof := True, bstate := st' \<rparr>)
               else Returned (r, f\<lparr> err := be_errno (backend f) st', bstate := st' \<rparr>)
           | AssertFailed \<Rightarrow> AssertFailed
           | Waiting \<Rightarrow> Waiting))"

text \<open>
  Modelled from the spec: the buffer refill contract of read mode (\<^verbatim>\<open>hfile.c\<close> is
  missing), used when the buffer is used up: \<open>offset += end - begin\<close>, then
  \<open>begin = end = 0\<close>, then a single backend read of up to \<open>capacity\<close> bytes.
\<close>

definition refill :: "'b hFILE \<Rightarrow> (int \<times> 'b hFILE) outcome" where
  "refill f =
     fill (f\<lparr> offset := offset f + int (hend f - hbegin f), hbegin := 0, hend := 0 \<rparr>)"

text \<open>
  Modelled from the spec: \<^verbatim>\<open>hread(f, dst, n)\<close> of the missing \<^verbatim>\<open>hfile.c\<close>: the count, the
  bytes copied to \<open>dst\<close> and the stream. An errored stream fails with the same error and
  no effect; a read on a write-only stream is unsupported. Otherwise the buffered bytes
  are handed out, up to \<open>n\<close> of them, which advances \<open>hbegin\<close> and with it the logical
  offset. On a miss, when more was asked for than was buffered and the end of the stream
  has not been signalled, the buffer is refilled from the backend with a single backend
  read, from which the request is served as far as it goes: short reads are permitted.
  The result is 0 only for \<open>n = 0\<close> and at the true end of the stream; an error of the
  backend gives -1.
\<close>

definition hread :: "'b hFILE \<Rightarrow> nat \<Rightarrow> (int \<times> byte list \<times> 'b hFILE) outcome" where
  "hread f n =
     (if err f \<noteq> 0 then Returned (- 1, [], f)
      else if mode f \<noteq> ReadMode then Returned (- 1, [], f\<lparr> err := ENOTSUP \<rparr>)
      else
        let k = min n (hend f - hbegin f);
            bytes = take k (window f);
            f1 = f\<lparr> hbegin := hbegin f + k, offset := offset f + int k \<rparr>
        in
          if n - k = 0 \<or> at_eof f1 then Returned (int k, bytes, f1)
          else
            (case refill f1 of
               Returned (r, f2) \<Rightarrow>
                 if r < 0 then Returned (- 1, bytes, f2)
                 else
                   let k2 = min (n - k) (hend f2 - hbegin f2);
                       f3 = f2\<lparr> hbegin := hbegin f2 + k2, offset := offset f2 + int k2 \<rparr>
                   in Returned (int (k + k2), bytes @ take k2 (window f2), f3)
             | AssertFailed \<Rightarrow> AssertFailed
             | Waiting \<Rightarrow> Waiting))"


text \<open>
  Modelled from the spec: sliding the remaining bytes to \<open>buffer[0]\<close>, which
  \<^verbatim>\<open>hpeek\<close> does before it reads more.
\<close>

definition slide :: "'b hFILE \<Rightarrow> 'b hFILE" where
  "slide f =
     f\<lparr> buffer := blit (buffer f) 0 (window f), hbegin := 0, hend := hend f - hbegin f \<rparr>"

text \<open>
  Modelled from the spec: the backend reads of \<^verbatim>\<open>hpeek\<close>
  (\<^verbatim>\<open>hfile.c\<close> is missing): further reads until \<open>want\<close> bytes
  are buffered, the end of the stream, or an error.
\<close>

function peek_fill :: "'b hFILE \<Rightarrow> nat \<Rightarrow> (int \<times> 'b hFILE) outcome" where
  "peek_fill f want =
     (if want \<le> hend f - hbegin f \<or> at_eof f then Returned (0, f)
      else
        (case fill f of
           Returned (r, f1) \<Rightarrow>
             if r < 0 then Returned (r, f1)
             else if r = 0 then Returned (0, f1)
             else peek_fill f1 want
         | AssertFailed \<Rightarrow> AssertFailed
         | Waiting \<Rightarrow> Waiting))"
  by pat_completeness auto

termination
proof (relation "measure (\<lambda>(f, want). want + hbegin f - hend f)", goal_cases)
  case 1
  show ?case by simp
next
  case (2 f want x r f1)
  then have "hbegin f1 = hbegin f" "hend f1 = hend f + nat r" "0 < r"
    by (auto simp: fill_def split: option.splits outcome.splits if_splits)
  with 2 show ?case by auto
qed

declare peek_fill.simps [simp del]

text \<open>
  Modelled from the spec: \<^verbatim>\<open>hpeek(f, dst, n)\<close> of the missing
  \<^verbatim>\<open>hfile.c\<close>: like \<^verbatim>\<open>hread\<close>, but nothing is
  consumed. It asks for at most \<open>capacity\<close> bytes; when fewer are buffered it slides
  the remaining bytes to \<open>buffer[0]\<close> and issues backend reads.
\<close>

definition hpeek :: "'b hFILE \<Rightarrow> nat \<Rightarrow> (int \<times> byte list \<times> 'b hFILE) outcome" where
  "hpeek f n =
     (if err f \<noteq> 0 then Returned (- 1, [], f)
      else if mode f \<noteq> ReadMode then Returned (- 1, [], f\<lparr> err := ENOTSUP \<rparr>)
      else
        let want = min n (capacity f) in
        if want \<le> hend f - hbegin f then Returned (int want, take want (window f), f)
        else
          (case peek_fill (slide f) want of
             Returned (r, f2) \<Rightarrow>
               if r < 0 then Returned (- 1, [], f2)
               else
                 let k = min want (hend f2 - hbegin f2)
                 in Returned (int k, take k (window f2), f2)
           | AssertFailed \<Rightarrow> AssertFailed
           | Waiting \<Rightarrow> Waiting))"

text \<open>
  Modelled from the spec: draining the pending bytes \<open>[begin, end)\<close> of write mode
  to the backend (\<^verbatim>\<open>hfile.c\<close> is missing): backend writes until all are
  delivered, \<open>offset\<close> advancing by what each write took. A failed write sets
  \<open>err\<close>; a write that takes nothing is treated as failed. A backend without
  \<open>write\<close> is unsupported.
\<close>

function flush_buffer :: "'b hFILE \<Rightarrow> (int \<times> 'b hFILE) outcome" where
  "flush_buffer f =
     (if hend f \<le> hbegin f then Returned (0, f\<lparr> hbegin := 0, hend := 0 \<rparr>)
      else
        (case be_write (backend f) of
           None \<Rightarrow> Returned (- 1, f\<lparr> err := ENOTSUP \<rparr>)
         | Some wr \<Rightarrow>
             (case wr (bstate f) (window f) of
                Returned (r, st') \<Rightarrow>
                  if r \<le> 0 then
                    Returned (- 1, f\<lparr> err := be_errno (backend f) st', bstate := st' \<rparr>)
                  else
                    flush_buffer (f\<lparr> hbegin := hbegin f + nat r, offset := offset f + r,
                                     bstate := st' \<rparr>)
              | AssertFailed \<Rightarrow> AssertFailed
              | Waiting \<Rightarrow> Waiting)))"
  by pat_completeness auto

termination
  by (relation "measure (\<lambda>f. hend f - hbegin f)") auto

declare flush_buffer.simps [simp del]

text \<open>
  Modelled from the spec: the staging loop of \<^verbatim>\<open>hwrite\<close>
  (\<^verbatim>\<open>hfile.c\<close> is missing): data is staged in the buffer, and a backend
  write is issued when the buffer is full. (A buffer with no room after a flush can only be one
  of capacity 0; the loop stops there with an error.)
\<close>

function hwrite_from :: "'b hFILE \<Rightarrow> byte list \<Rightarrow> (int \<times> 'b hFILE) outcome" where
  "hwrite_from f data =
     (let k = min (capacity f - hend f) (length data);
          f1 = f\<lparr> buffer := blit (buffer f) (hend f) (take k data), hend := hend f + k \<rparr>
      in
        if length data - k = 0 then Returned (0, f1)
        else
          (case flush_buffer f1 of
             Returned (r, f2) \<Rightarrow>
               if r < 0 then Returned (- 1, f2)
               else if capacity f2 - hend f2 = 0 then Returned (- 1, f2\<lparr> err := EIO \<rparr>)
               else hwrite_from f2 (drop k data)
           | AssertFailed \<Rightarrow> AssertFailed
           | Waiting \<Rightarrow> Waiting))"
  by pat_completeness auto

termination
  by (relation "measure (\<lambda>(f, data). 2 * length data + (if capacity f - hend f = 0 then 1 else 0))")
    (auto simp: min_def split: if_splits)

declare hwrite_from.simps [simp del]

text \<open>
  Modelled from the spec: \<^verbatim>\<open>hwrite(f, src, n)\<close> of the missing
  \<^verbatim>\<open>hfile.c\<close>: \<open>n\<close> on success, -1 on error. An errored
  stream fails with the same error; a write on a read-only stream or on a backend without
  \<open>write\<close> is unsupported.
\<close>

definition hwrite :: "'b hFILE \<Rightarrow> byte list \<Rightarrow> (int \<times> 'b hFILE) outcome" where
  "hwrite f data =
     (if err f \<noteq> 0 then Returned (- 1, f)
      else if mode f \<noteq> WriteMode \<or> be_write (backend f) = None
        then Returned (- 1, f\<lparr> err := ENOTSUP \<rparr>)
      else
        (case hwrite_from f data of
           Returned (r, f') \<Rightarrow>
             if r < 0 then Returned (- 1, f') else Returned (int (length data), f')
         | AssertFailed \<Rightarrow> AssertFailed
         | Waiting \<Rightarrow> Waiting))"


text \<open>
  Modelled from the spec: \<^verbatim>\<open>hflush\<close> of the missing
  \<^verbatim>\<open>hfile.c\<close>: drains the pending writes and calls the backend's
  \<open>flush\<close>; 0 or \<^verbatim>\<open>EOF\<close>. By the capability absence policy it
  fails as unsupported on a backend that has no \<open>flush\<close>.
\<close>

definition hflush :: "'b hFILE \<Rightarrow> (int \<times> 'b hFILE) outcome" where
  "hflush f =
     (if err f \<noteq> 0 then Returned (EOF, f)
      else
        (case be_flush (backend f) of
           None \<Rightarrow> Returned (EOF, f\<lparr> err := ENOTSUP \<rparr>)
         | Some fl \<Rightarrow>
             (case flush_buffer f of
                Returned (r, f1) \<Rightarrow>
                  if r < 0 then Returned (EOF, f1)
                  else
                    (case fl (bstate f1) of
                       Returned (r2, st') \<Rightarrow>
                         if r2 < 0
                         then Returned (EOF, f1\<lparr> err := be_errno (backend f1) st', bstate := st' \<rparr>)
                         else Returned (0, f1\<lparr> bstate := st' \<rparr>)
                     | AssertFailed \<Rightarrow> AssertFailed
                     | Waiting \<Rightarrow> Waiting)
              | AssertFailed \<Rightarrow> AssertFailed
              | Waiting \<Rightarrow> Waiting)))"

text \<open>
  Modelled from the spec: the flush that \<^verbatim>\<open>hclose\<close> does first: it
  flushes write mode.
\<close>

definition close_flush :: "'b hFILE \<Rightarrow> (int \<times> 'b hFILE) outcome" where
  "close_flush f = (if mode f = WriteMode then flush_buffer f else Returned (0, f))"

text \<open>
  Modelled from the spec: \<^verbatim>\<open>hclose\<close> of the missing
  \<^verbatim>\<open>hfile.c\<close>: flushes writes, calls the backend's \<open>close\<close>
  also after a failed flush, and returns \<^verbatim>\<open>EOF\<close> if either failed. The
  stream is gone; what remains is the backend's state.
\<close>

definition hclose :: "'b hFILE \<Rightarrow> (int \<times> 'b) outcome" where
  "hclose f =
     (case close_flush f of
        Returned (fr, f1) \<Rightarrow>
          (case be_close (backend f1) (bstate f1) of
             Returned (cr, st') \<Rightarrow> Returned (if fr < 0 \<or> cr < 0 then EOF else 0, st')
           | AssertFailed \<Rightarrow> AssertFailed
           | Waiting \<Rightarrow> Waiting)
      | AssertFailed \<Rightarrow> AssertFailed
      | Waiting \<Rightarrow> Waiting)"

section \<open>The HTTP backend (hfile\_net.c)\<close>

text \<open>
  \<^verbatim>\<open>hFILE_net\<close> extends \<^verbatim>\<open>hFILE\<close> by the field
  \<^verbatim>\<open>netfp\<close>, the box of the HTTP reader. The reader's calls also act on
  \<^verbatim>\<open>errno\<close> and the network, so the backend's state is the box together
  with the world.
\<close>

type_synonym hFILE_net = "CurlStreamBox \<times> world"

text \<open>
  \<^verbatim>\<open>net_read\<close>, \<^verbatim>\<open>net_seek\<close>: the calls are passed
  on to the reader.
\<close>

definition net_read :: "hFILE_net \<Rightarrow> nat \<Rightarrow> (int \<times> byte list \<times> hFILE_net) outcome" where
  "net_read fp nbytes =
     (case curlstream_read (snd fp) (fst fp) nbytes of
        (Returned c, bytes, s', w') \<Rightarrow> Returned (c, bytes, (s', w'))
      | (AssertFailed, bytes, s', w') \<Rightarrow> AssertFailed
      | (Waiting, bytes, s', w') \<Rightarrow> Waiting)"

definition net_seek :: "hFILE_net \<Rightarrow> int \<Rightarrow> int \<Rightarrow> (int \<times> hFILE_net) outcome" where
  "net_seek fp off whence =
     (case curlstream_seek (snd fp) (fst fp) off whence of
        (k, s', w') \<Rightarrow> Returned (k, (s', w')))"

text \<open>
  \<^verbatim>\<open>curlstream_close\<close> (\<^verbatim>\<open>curlstream.cc\<close>) deletes
  the session, if there is one, and the box; it returns nothing. What is left of the box has no
  session.
\<close>

definition curlstream_close :: "CurlStreamBox \<Rightarrow> CurlStreamBox" where
  "curlstream_close s = s\<lparr> stm := None \<rparr>"

text \<open>\<^verbatim>\<open>net_close\<close> closes the reader and returns 0.\<close>

definition net_close :: "hFILE_net \<Rightarrow> (int \<times> hFILE_net) outcome" where
  "net_close fp = Returned (0, (curlstream_close (fst fp), snd fp))"

text \<open>
  \<^verbatim>\<open>net_backend = { net_read, NULL, net_seek, NULL, net_close }\<close>: no
  \<open>write\<close> and no \<open>flush\<close>.
\<close>

definition net_backend :: "hFILE_net hFILE_backend" where
  "net_backend =
     \<lparr> be_read = Some net_read, be_write = None, be_seek = Some net_seek, be_flush = None,
       be_close = net_close, be_errno = (\<lambda>fp. errno (snd fp)) \<rparr>"

text \<open>
  \<^verbatim>\<open>hopen_net\<close>: the stream is initialised, the reader opened at offset
  0; if that fails there is no stream. (The allocation by \<^verbatim>\<open>hfile_init\<close>
  is taken to succeed.)
\<close>

definition hopen_net ::
  "world \<Rightarrow> nat \<Rightarrow> string \<Rightarrow> hmode \<Rightarrow> (hFILE_net hFILE option \<times> world) outcome" where
  "hopen_net w cap filename m =
     (case curlstream_open w filename 0 of
        (Returned c, Some box, w') \<Rightarrow>
          if c \<noteq> 0 then Returned (None, w')
          else Returned (Some (hfile_init cap m net_backend (box, w')), w')
      | (Returned c, None, w') \<Rightarrow> Returned (None, w')
      | (AssertFailed, b, w') \<Rightarrow> AssertFailed
      | (Waiting, b, w') \<Rightarrow> Waiting)"

section \<open>Local files\<close>

text \<open>
  Modelled from the spec: the local-file backend (\<^verbatim>\<open>hfile.c\<close>, with its
  \<^verbatim>\<open>fd\<close> backend, is not among the sources; the test program opens local
  files through it). The file system is a map from paths to contents; the backend's state is the
  file system, the path of the open file, the position of the descriptor and the
  \<^verbatim>\<open>errno\<close> of its last failure.
\<close>

type_synonym filesystem = "string \<Rightarrow> byte list option"

record hFILE_fd =
  fd_fs :: filesystem
  fd_path :: string
  fd_pos :: nat
  fd_errno :: int

text \<open>The \<^verbatim>\<open>errno\<close> value of a bad descriptor.\<close>

definition EBADF :: int where "EBADF = 9"

text \<open>
  Modelled from the spec: the backend's \<open>read\<close> as
  \<^verbatim>\<open>read(2)\<close>: up to \<open>n\<close> bytes from the position, which
  advances.
\<close>

definition fd_read :: "hFILE_fd \<Rightarrow> nat \<Rightarrow> (int \<times> byte list \<times> hFILE_fd) outcome" where
  "fd_read st n =
     (case fd_fs st (fd_path st) of
        None \<Rightarrow> Returned (- 1, [], st\<lparr> fd_errno := EBADF \<rparr>)
      | Some content \<Rightarrow>
          let data = take n (drop (fd_pos st) content)
          in Returned (int (length data), data, st\<lparr> fd_pos := fd_pos st + length data \<rparr>))"

text \<open>
  Modelled from the spec: the backend's \<open>write\<close> as
  \<^verbatim>\<open>write(2)\<close>: the data goes to the position, replacing what is there
  and extending the file.
\<close>

definition fd_write :: "hFILE_fd \<Rightarrow> byte list \<Rightarrow> (int \<times> hFILE_fd) outcome" where
  "fd_write st data =
     (case fd_fs st (fd_path st) of
        None \<Rightarrow> Returned (- 1, st\<lparr> fd_errno := EBADF \<rparr>)
      | Some content \<Rightarrow>
          let padded = content @ replicate (fd_pos st - length content) 0;
              content' = take (fd_pos st) padded @ data @ drop (fd_pos st + length data) padded
          in Returned (int (length data),
                       st\<lparr> fd_fs := (fd_fs st)(fd_path st \<mapsto> content'),
                           fd_pos := fd_pos st + length data \<rparr>))"

text \<open>
  Modelled from the spec: the backend's \<open>seek\<close> as
  \<^verbatim>\<open>lseek(2)\<close>.
\<close>

definition fd_seek :: "hFILE_fd \<Rightarrow> int \<Rightarrow> int \<Rightarrow> (int \<times> hFILE_fd) outcome" where
  "fd_seek st off whence =
     (case fd_fs st (fd_path st) of
        None \<Rightarrow> Returned (- 1, st\<lparr> fd_errno := EBADF \<rparr>)
      | Some content \<Rightarrow>
          let target = (if whence = SEEK_SET then off
                        else if whence = SEEK_CUR then int (fd_pos st) + off
                        else int (length content) + off)
          in if (whence = SEEK_SET \<or> whence = SEEK_CUR \<or> whence = SEEK_END) \<and> 0 \<le> target
             then Returned (target, st\<lparr> fd_pos := nat target \<rparr>)
             else Returned (- 1, st\<lparr> fd_errno := EINVAL \<rparr>))"

text \<open>
  Modelled from the spec: the backend's \<open>flush\<close> and \<open>close\<close>, which
  succeed.
\<close>

definition fd_flush :: "hFILE_fd \<Rightarrow> (int \<times> hFILE_fd) outcome" where
  "fd_flush st = Returned (0, st)"

definition fd_close :: "hFILE_fd \<Rightarrow> (int \<times> hFILE_fd) outcome" where
  "fd_close st = Returned (0, st)"

text \<open>
  Modelled from the spec: the capability record of local files, with every capability.
\<close>

definition fd_backend :: "hFILE_fd hFILE_backend" where
  "fd_backend =
     \<lparr> be_read = Some fd_read, be_write = Some fd_write, be_seek = Some fd_seek,
       be_flush = Some fd_flush, be_close = fd_close, be_errno = fd_errno \<rparr>"


section \<open>Memory streams\<close>

text \<open>
  Modelled from the spec: the state of the memory backend of \<^verbatim>\<open>mem:\<close>
  URLs (section 3; its code is not among the sources). \<open>pmbuffer\<close> is the caller's
  \<open>*pmbuffer\<close>, a block of bytes or null; \<open>pmlength\<close> the caller's
  \<open>*pmlength\<close>; \<open>mem_cap\<close> the capacity allocated by this stream and
  \<open>mem_pos\<close> the position, which in write mode is the size written so far.
\<close>

record hFILE_mem =
  pmbuffer :: "byte list option"
  pmlength :: nat
  mem_cap :: nat
  mem_pos :: nat
  mem_mode :: hmode
  mem_errno :: int

text \<open>
  Modelled from the spec: doubling growth: the capacity is doubled until the data fits.
\<close>

function grow :: "nat \<Rightarrow> nat \<Rightarrow> nat" where
  "grow c need = (if need \<le> c then c else grow (max 1 (2 * c)) need)"
  by pat_completeness auto

termination
  by (relation "measure (\<lambda>(c, need). need - c)") auto

declare grow.simps [simp del]

text \<open>
  Modelled from the spec: the bytes \<open>*pmbuffer\<close> points to, none when it is null.
\<close>

definition block_of :: "hFILE_mem \<Rightarrow> byte list" where
  "block_of st = (case pmbuffer st of None \<Rightarrow> [] | Some b \<Rightarrow> b)"

text \<open>
  Modelled from the spec: the backend's \<open>write\<close>: writes append at the position; the
  block is reallocated as needed (doubling growth, the old contents kept) and
  \<open>*pmlength\<close> is updated to the allocated capacity.
\<close>

definition mem_write :: "hFILE_mem \<Rightarrow> byte list \<Rightarrow> (int \<times> hFILE_mem) outcome" where
  "mem_write st data =
     (if mem_mode st \<noteq> WriteMode then Returned (- 1, st\<lparr> mem_errno := EBADF \<rparr>)
      else
        let need = mem_pos st + length data;
            cap' = grow (mem_cap st) need;
            old = block_of st;
            block = take cap' (old @ replicate (cap' - length old) 0);
            block' = take (mem_pos st) block @ data @ drop need block
        in Returned (int (length data),
                     st\<lparr> pmbuffer := Some block', pmlength := cap', mem_cap := cap',
                         mem_pos := need \<rparr>))"

text \<open>
  Modelled from the spec: the backend's \<open>read\<close>: bytes from \<open>*pmbuffer[0 ..
  *pmlength)\<close>.
\<close>

definition mem_read :: "hFILE_mem \<Rightarrow> nat \<Rightarrow> (int \<times> byte list \<times> hFILE_mem) outcome" where
  "mem_read st n =
     (if mem_mode st \<noteq> ReadMode then Returned (- 1, [], st\<lparr> mem_errno := EBADF \<rparr>)
      else
        let data = take n (drop (mem_pos st) (take (pmlength st) (block_of st)))
        in Returned (int (length data), data, st\<lparr> mem_pos := mem_pos st + length data \<rparr>))"

text \<open>
  Modelled from the spec: the backend's \<open>seek\<close>, within \<open>[0 ..
  *pmlength)\<close> and beyond.
\<close>

definition mem_seek :: "hFILE_mem \<Rightarrow> int \<Rightarrow> int \<Rightarrow> (int \<times> hFILE_mem) outcome" where
  "mem_seek st off whence =
     (let target = (if whence = SEEK_SET then off
                    else if whence = SEEK_CUR then int (mem_pos st) + off
                    else int (pmlength st) + off)
      in if (whence = SEEK_SET \<or> whence = SEEK_CUR \<or> whence = SEEK_END) \<and> 0 \<le> target
         then Returned (target, st\<lparr> mem_pos := nat target \<rparr>)
         else Returned (- 1, st\<lparr> mem_errno := EINVAL \<rparr>))"

text \<open>
  Modelled from the spec: the backend's \<open>close\<close>: in write mode
  \<open>*pmlength\<close> is set to the final written size; the block survives.
\<close>

definition mem_close :: "hFILE_mem \<Rightarrow> (int \<times> hFILE_mem) outcome" where
  "mem_close st =
     Returned (0, if mem_mode st = WriteMode then st\<lparr> pmlength := mem_pos st \<rparr> else st)"

text \<open>
  Modelled from the spec: the capability record of \<^verbatim>\<open>mem:\<close> streams:
  read, write, seek and close.
\<close>

definition mem_backend :: "hFILE_mem hFILE_backend" where
  "mem_backend =
     \<lparr> be_read = Some mem_read, be_write = Some mem_write, be_seek = Some mem_seek,
       be_flush = None, be_close = mem_close, be_errno = mem_errno \<rparr>"

text \<open>
  Modelled from the spec: \<^verbatim>\<open>hopen\<close> of a \<^verbatim>\<open>mem:\<close>
  URL. The URL encodes the two pointers; here the stream is given the cells they point to,
  \<open>mbuffer\<close> and \<open>mlength\<close>.
\<close>

definition hopen_mem :: "byte list option \<Rightarrow> nat \<Rightarrow> nat \<Rightarrow> hmode \<Rightarrow> hFILE_mem hFILE" where
  "hopen_mem mbuffer mlength cap m =
     hfile_init cap m mem_backend
       \<lparr> pmbuffer = mbuffer, pmlength = mlength, mem_cap = 0, mem_pos = 0, mem_mode = m,
         mem_errno = 0 \<rparr>"

section \<open>Callers of the buffered layer\<close>

text \<open>
  A caller that peeks and reads in some order; \<open>reads_of\<close> is the concatenation of
  the bytes its reads return (up to the first failure).
\<close>

datatype hop = Peek nat | Read nat

fun reads_of :: "'b hFILE \<Rightarrow> hop list \<Rightarrow> byte list" where
  "reads_of f [] = []"
| "reads_of f (Peek n # ops) =
     (case hpeek f n of
        Returned (r, bytes, f') \<Rightarrow> reads_of f' ops
      | AssertFailed \<Rightarrow> []
      | Waiting \<Rightarrow> [])"
| "reads_of f (Read n # ops) =
     (case hread f n of
        Returned (r, bytes, f') \<Rightarrow> if r < 0 then [] else bytes @ reads_of f' ops
      | AssertFailed \<Rightarrow> []
      | Waiting \<Rightarrow> [])"




fun hwrites :: "'b hFILE \<Rightarrow> byte list list \<Rightarrow> (bool \<times> 'b hFILE) outcome" where
  "hwrites f [] = Returned (True, f)"
| "hwrites f (d # ds) =
     (case hwrite f d of
        Returned (r, f') \<Rightarrow> if r = int (length d) then hwrites f' ds else Returned (False, f')
      | AssertFailed \<Rightarrow> AssertFailed
      | Waiting \<Rightarrow> Waiting)"

section \<open>Streams at work\<close>


text \<open>
  A backend whose \<open>write\<close> takes all it is given and appends it to what it has
  stored (\<open>stored\<close>), on states that are \<open>good\<close>; and a healthy stream
  writing to such a backend, where \<open>D\<close> is everything written so far: what the
  backend has stored followed by the pending bytes.
\<close>

definition appends :: "('b \<Rightarrow> bool) \<Rightarrow> ('b \<Rightarrow> byte list) \<Rightarrow> 'b hFILE_backend \<Rightarrow> bool" where
  "appends good stored be \<longleftrightarrow>
     (\<exists>wr. be_write be = Some wr \<and>
        (\<forall>st data. good st \<longrightarrow> data \<noteq> [] \<longrightarrow>
           (\<exists>st'. wr st data = Returned (int (length data), st') \<and> good st'
                 \<and> stored st' = stored st @ data)))"

definition writing ::
  "('b \<Rightarrow> bool) \<Rightarrow> ('b \<Rightarrow> byte list) \<Rightarrow> 'b hFILE \<Rightarrow> byte list \<Rightarrow> bool" where
  "writing good stored f D \<longleftrightarrow>
     mode f = WriteMode \<and> err f = 0 \<and> appends good stored (backend f) \<and> 0 < capacity f
     \<and> hbegin f \<le> hend f \<and> hend f \<le> capacity f \<and> good (bstate f)
     \<and> D = stored (bstate f) @ window f"



text \<open>
  A memory backend in write mode, opened on the cells \<open>mb\<close> and \<open>ml\<close>:
  before its first allocation the caller's cells are as they were; afterwards
  \<open>*pmbuffer\<close> is a block of the allocated capacity, which \<open>*pmlength\<close>
  holds. What it has stored are the bytes before the position.
\<close>

definition mem_good :: "byte list option \<Rightarrow> nat \<Rightarrow> hFILE_mem \<Rightarrow> bool" where
  "mem_good mb ml st \<longleftrightarrow>
     mem_mode st = WriteMode \<and>
     (if mem_cap st = 0 then mem_pos st = 0 \<and> pmbuffer st = mb \<and> pmlength st = ml
      else (\<exists>block. pmbuffer st = Some block \<and> length block = mem_cap st)
           \<and> pmlength st = mem_cap st \<and> mem_pos st \<le> mem_cap st)"

definition mem_stored :: "hFILE_mem \<Rightarrow> byte list" where
  "mem_stored st = take (mem_pos st) (block_of st)"

text \<open>
  A backend whose \<open>read\<close> keeps to its contract: it stores no more than the \<open>n\<close> bytes asked
  for, and a positive count is the number of bytes it stored.
\<close>

definition reads_fit :: "'b hFILE_backend \<Rightarrow> bool" where
  "reads_fit be \<longleftrightarrow>
     (case be_read be of
        None \<Rightarrow> True
      | Some rd \<Rightarrow>
          (\<forall>st n r data st'. rd st n = Returned (r, data, st') \<longrightarrow>
             r \<le> int n \<and> (0 < r \<longrightarrow> length data = nat r)))"

section \<open>Streams of the tests\<close>

text \<open>A file system with one seven-byte file.\<close>

definition test_fs :: filesystem where
  "test_fs = (\<lambda>p. if p = ''vcf.c'' then Some [10, 20, 30, 40, 50, 60, 70] else None)"

text \<open>
  An HTTP stream on the mock server, as \<^verbatim>\<open>hopen_net\<close> builds it, with a
  buffer of four bytes.
\<close>

definition test_hfile :: "hFILE_net hFILE" where
  "test_hfile = hfile_init 4 ReadMode net_backend (test_open (- 1))"

text \<open>
  The 14 bytes of the greeting that the test program writes to its
  \<^verbatim>\<open>mem:\<close> stream.
\<close>

definition hello :: "byte list" where
  "hello = [104, 101, 108, 108, 111, 44, 32, 119, 111, 114, 108, 100, 33, 10]"

text \<open>
  A stream on the seven-byte file with a buffer of four bytes, after two bytes were read.
\<close>

definition test_reader :: "hFILE_fd hFILE" where
  "test_reader =
     (case hread (hfile_init 4 ReadMode fd_backend
                    \<lparr> fd_fs = test_fs, fd_path = ''vcf.c'', fd_pos = 0, fd_errno = 0 \<rparr>) 2 of
        Returned (r, bytes, f) \<Rightarrow> f
      | AssertFailed \<Rightarrow> hfile_init 4 ReadMode fd_backend
                    \<lparr> fd_fs = test_fs, fd_path = ''vcf.c'', fd_pos = 0, fd_errno = 0 \<rparr>
      | Waiting \<Rightarrow> hfile_init 4 ReadMode fd_backend
                    \<lparr> fd_fs = test_fs, fd_path = ''vcf.c'', fd_pos = 0, fd_errno = 0 \<rparr>)"

section \<open>Facts about perform, the wait loops and the FIFO\<close>

lemma perform_status:
  "perform st = (Returned s, st') \<Longrightarrow> s = 0 \<or> s = - 1"
  by (auto simp: perform_def Let_def split: list.splits if_splits option.splits)

lemma block_status:
  "block st = Returned s \<Longrightarrow> s = 0 \<or> s = - 1"
  by (auto simp: block_def split: list.splits if_splits)

lemma open_wait_stop:
  "\<not> (final_msg_m st = None \<and> response_code_m st = 0) \<Longrightarrow> open_wait st = (Returned 0, st)"
  by (subst open_wait.simps) auto

lemma open_wait_step:
  "final_msg_m st = None \<Longrightarrow> response_code_m st = 0 \<Longrightarrow>
   open_wait st =
     (case block st of
        Returned s \<Rightarrow>
          if s \<noteq> 0 then (Returned s, st)
          else
            (case perform st of
               (Returned s', st') \<Rightarrow> if s' \<noteq> 0 then (Returned s', st') else open_wait st'
             | (AssertFailed, st') \<Rightarrow> (AssertFailed, st')
             | (Waiting, st') \<Rightarrow> (Waiting, st'))
      | AssertFailed \<Rightarrow> (AssertFailed, st)
      | Waiting \<Rightarrow> (Waiting, st))"
  by (subst open_wait.simps) simp

lemma open_wait_rule:
  assumes "open_wait st = (r, st')" and "I st"
    and step: "\<And>st x st'. I st \<Longrightarrow> perform st = (x, st') \<Longrightarrow> I st'"
  shows "I st' \<and> (\<forall>s. r = Returned s \<longrightarrow> s = 0 \<or> s = - 1)
       \<and> (r = Returned 0 \<longrightarrow> final_msg_m st' \<noteq> None \<or> response_code_m st' \<noteq> 0)"
  using assms(1,2)
proof (induction st rule: open_wait.induct)
  case (1 st)
  show ?case
  proof (cases "final_msg_m st = None \<and> response_code_m st = 0")
    case False
    from open_wait_stop [OF False] "1.prems" False show ?thesis by auto
  next
    case True
    then have fm: "final_msg_m st = None" and rc: "response_code_m st = 0" by simp_all
    note unf = open_wait_step [OF fm rc]
    show ?thesis
    proof (cases "block st")
      case AssertFailed
      with unf "1.prems" show ?thesis by auto
    next
      case Waiting
      with unf "1.prems" show ?thesis by auto
    next
      case (Returned b)
      note blk = this
      show ?thesis
      proof (cases "b = 0")
        case False
        with unf blk "1.prems" block_status [OF blk] show ?thesis by auto
      next
        case True
        obtain x st1 where p: "perform st = (x, st1)" by (cases "perform st") auto
        have I1: "I st1" using step [OF "1.prems"(2) p] .
        show ?thesis
        proof (cases x)
          case AssertFailed
          with unf blk True p "1.prems" I1 show ?thesis by auto
        next
          case Waiting
          with unf blk True p "1.prems" I1 show ?thesis by auto
        next
          case (Returned s1)
          note px = p [unfolded Returned]
          show ?thesis
          proof (cases "s1 = 0")
            case False
            with unf blk True px "1.prems" I1 perform_status [OF px] show ?thesis by auto
          next
            case s10: True
            from unf blk True px s10 "1.prems"(1) have rec: "open_wait st1 = (r, st')" by simp
            have b0: "\<not> b \<noteq> 0" using True by simp
            have s0: "\<not> s1 \<noteq> 0" using s10 by simp
            from "1.IH" [OF \<open>final_msg_m st = None \<and> response_code_m st = 0\<close> blk b0 px [symmetric] refl s0 rec I1]
            show ?thesis .
          qed
        qed
      qed
    qed
  qed
qed

lemma read_wait_stop:
  "\<not> (final_msg_m st = None \<and> buf_m st = []) \<Longrightarrow> read_wait st = (Returned 0, st)"
  by (subst read_wait.simps) auto

lemma read_wait_step:
  "final_msg_m st = None \<Longrightarrow> buf_m st = [] \<Longrightarrow>
   read_wait st =
     (case block st of
        Returned s \<Rightarrow>
          if s \<noteq> 0 then (Returned s, st)
          else
            (case perform st of
               (Returned s', st') \<Rightarrow> if s' \<noteq> 0 then (Returned s', st') else read_wait st'
             | (AssertFailed, st') \<Rightarrow> (AssertFailed, st')
             | (Waiting, st') \<Rightarrow> (Waiting, st'))
      | AssertFailed \<Rightarrow> (AssertFailed, st)
      | Waiting \<Rightarrow> (Waiting, st))"
  by (subst read_wait.simps) simp

lemma read_wait_rule:
  assumes "read_wait st = (r, st')" and "I st"
    and step: "\<And>st x st'. I st \<Longrightarrow> perform st = (x, st') \<Longrightarrow> I st'"
  shows "I st' \<and> (\<forall>s. r = Returned s \<longrightarrow> s = 0 \<or> s = - 1)
       \<and> (r = Returned 0 \<longrightarrow> final_msg_m st' \<noteq> None \<or> buf_m st' \<noteq> [])"
  using assms(1,2)
proof (induction st rule: read_wait.induct)
  case (1 st)
  show ?case
  proof (cases "final_msg_m st = None \<and> buf_m st = []")
    case False
    from read_wait_stop [OF False] "1.prems" False show ?thesis by auto
  next
    case True
    then have fm: "final_msg_m st = None" and rc: "buf_m st = []" by simp_all
    note unf = read_wait_step [OF fm rc]
    show ?thesis
    proof (cases "block st")
      case AssertFailed
      with unf "1.prems" show ?thesis by auto
    next
      case Waiting
      with unf "1.prems" show ?thesis by auto
    next
      case (Returned b)
      note blk = this
      show ?thesis
      proof (cases "b = 0")
        case False
        with unf blk "1.prems" block_status [OF blk] show ?thesis by auto
      next
        case True
        obtain x st1 where p: "perform st = (x, st1)" by (cases "perform st") auto
        have I1: "I st1" using step [OF "1.prems"(2) p] .
        show ?thesis
        proof (cases x)
          case AssertFailed
          with unf blk True p "1.prems" I1 show ?thesis by auto
        next
          case Waiting
          with unf blk True p "1.prems" I1 show ?thesis by auto
        next
          case (Returned s1)
          note px = p [unfolded Returned]
          show ?thesis
          proof (cases "s1 = 0")
            case False
            with unf blk True px "1.prems" I1 perform_status [OF px] show ?thesis by auto
          next
            case s10: True
            from unf blk True px s10 "1.prems"(1) have rec: "read_wait st1 = (r, st')" by simp
            have b0: "\<not> b \<noteq> 0" using True by simp
            have s0: "\<not> s1 \<noteq> 0" using s10 by simp
            from "1.IH" [OF \<open>final_msg_m st = None \<and> buf_m st = []\<close> blk b0 px [symmetric] refl s0 rec I1]
            show ?thesis .
          qed
        qed
      qed
    qed
  qed
qed


lemma fifo_write_ok: "[] \<notin> set q \<Longrightarrow> [] \<notin> set (fifo_write q x)"
  by (simp add: fifo_write_def)

lemma foldl_fifo_write_ok: "[] \<notin> set q \<Longrightarrow> [] \<notin> set (foldl fifo_write q xs)"
  by (induction xs arbitrary: q) (simp_all add: fifo_write_ok)

lemma perform_keeps:
  assumes "perform st = (x, st')"
  shows "final_read_rc_m st' = final_read_rc_m st" "h_m st' = h_m st" "m_m st' = m_m st"
    "[] \<notin> set (buf_m st) \<Longrightarrow> [] \<notin> set (buf_m st')"
    "response_code_m st \<noteq> 0 \<Longrightarrow> response_code_m st' = response_code_m st"
  using assms
  by (auto simp: perform_def Let_def foldl_fifo_write_ok
      split: list.splits if_splits option.splits)

lemma readsome_positive:
  "q \<noteq> [] \<Longrightarrow> [] \<notin> set q \<Longrightarrow> 0 < n \<Longrightarrow> 0 < fst (readsome q n)"
  by (cases q) (auto simp: readsome_def Let_def)

lemma readsome_ok: "[] \<notin> set q \<Longrightarrow> [] \<notin> set (snd (snd (readsome q n)))"
  by (cases q) (auto simp: readsome_def Let_def)

lemma open_wait_status:
  "open_wait st = (Returned s, st') \<Longrightarrow> s = 0 \<or> s = - 1"
  using open_wait_rule [of st "Returned s" st' "\<lambda>_. True"] by simp

lemma read_wait_status:
  "read_wait st = (Returned s, st') \<Longrightarrow> s = 0 \<or> s = - 1"
  using read_wait_rule [of st "Returned s" st' "\<lambda>_. True"] by simp

lemma errno_after_quiet:
  "list_all (\<lambda>p. errno_left p = None) ps \<Longrightarrow> errno_after ps e = e"
  by (induction ps arbitrary: e) (simp_all add: errno_after_def)

lemma steps_run_quiet:
  "list_all (\<lambda>p. errno_left p = None) (curl_script st) \<Longrightarrow>
   errno_after (steps_run st st') e = e"
proof -
  assume q: "list_all (\<lambda>p. errno_left p = None) (curl_script st)"
  have "set (steps_run st st') \<subseteq> set (curl_script st)"
    by (simp add: steps_run_def set_take_subset)
  with q have "list_all (\<lambda>p. errno_left p = None) (steps_run st st')"
    by (auto simp: list_all_iff)
  then show ?thesis by (rule errno_after_quiet)
qed

lemma steps_run_same [simp]: "steps_run st st = []"
  by (simp add: steps_run_def)

lemma perform_script:
  "perform st = (x, st') \<Longrightarrow> set (curl_script st') \<subseteq> set (curl_script st)"
  by (auto simp: perform_def Let_def split: list.splits if_splits option.splits)

lemma CurlStream_open_script:
  assumes "CurlStream_open st off = (x, st')"
  shows "set (curl_script st') \<subseteq> set (curl_script st)"
proof -
  let ?I = "\<lambda>t. set (curl_script t) \<subseteq> set (curl_script st)"
  have step: "\<And>t y t'. ?I t \<Longrightarrow> perform t = (y, t') \<Longrightarrow> ?I t'"
    using perform_script by blast
  have checks: "\<And>t y t'. open_checks t off = (y, t') \<Longrightarrow> curl_script t' = curl_script t"
    by (auto simp: open_checks_def split: if_splits)
  show ?thesis
  proof (cases "m_m st \<or> h_m st")
    case True
    with assms show ?thesis by (auto simp: CurlStream_open_def)
  next
    case False
    show ?thesis
    proof (cases "curl_setup st = SetupOk")
      case no: False
      with assms False show ?thesis
        by (cases "curl_setup st") (auto simp: CurlStream_open_def)
    next
      case ok: True
      let ?st0 = "st\<lparr> m_m := True, h_m := True \<rparr>"
      obtain y1 st1 where p1: "perform ?st0 = (y1, st1)" by (cases "perform ?st0") auto
      from perform_script [OF p1] have i1: "?I st1" by simp
      obtain y2 st2 where ow: "open_wait st1 = (y2, st2)" by (cases "open_wait st1") auto
      from open_wait_rule [where I = ?I, OF ow i1 step] have i2: "?I st2" by simp
      from assms False ok p1 ow have "st' = st1 \<or> st' = st2 \<or> (\<exists>y. open_checks st2 off = (y, st'))"
        by (auto simp: CurlStream_open_def split: outcome.splits if_splits)
      with i1 i2 checks show ?thesis by auto
    qed
  qed
qed

section \<open>The requests that open and read issue\<close>

lemma open_helper_requests:
  "open_helper w s = (r, s', w') \<Longrightarrow>
   requests w' = requests w @ [request_of (url s) (ofs s)] \<and> url s' = url s \<and> ofs s' = ofs s"
  by (auto simp: open_helper_def Let_def split: prod.splits outcome.splits if_splits)



section \<open>How a failed open sets errno\<close>

lemma open_helper_fail:
  "open_helper w s = (Returned c, s', w') \<Longrightarrow> c \<noteq> 0 \<Longrightarrow>
   stm s' = None \<and> errno w' = errno_of_response (response_code (lazy_session w s))"
  by (auto simp: open_helper_def lazy_session_def Let_def split: prod.splits outcome.splits if_splits)

lemma open_helper_ok:
  "open_helper w s = (Returned 0, s', w') \<Longrightarrow>
   stm s' = Some (lazy_session w s)
   \<and> errno w' = lib_errno (network w (requests w) (request_of (url s) (ofs s)))
                  (lazy_session w s) (errno w)"
  by (auto simp: open_helper_def lazy_session_def Let_def split: prod.splits outcome.splits if_splits)

text \<open>
  C4 (amended). When \<^verbatim>\<open>open_helper\<close> fails it leaves the box without a session and sets
  \<^verbatim>\<open>errno\<close> from the response code of the session it tried: 401 and 407 give
  \<^verbatim>\<open>EPERM\<close>, 403 \<^verbatim>\<open>EACCES\<close>, 404 and 410 \<^verbatim>\<open>ENOENT\<close>, 408 and 504 \<^verbatim>\<open>ETIMEDOUT\<close>,
  503 \<^verbatim>\<open>EAGAIN\<close>, every other code from 400 to 499 \<^verbatim>\<open>EINVAL\<close>, every remaining code
  \<^verbatim>\<open>EIO\<close>. 416 has no case of its own: it gives \<^verbatim>\<open>EINVAL\<close>, and a read that had to
  open the session returns the open's nonzero value, never end-of-file.
\<close>

theorem open_helper_errno:
  assumes "open_helper w s = (Returned c, s', w')" and "c \<noteq> 0"
    and "ret = response_code (lazy_session w s)"
  shows "stm s' = None
       \<and> errno w' =
           (if ret = 401 \<or> ret = 407 then EPERM
            else if ret = 403 then EACCES
            else if ret = 404 \<or> ret = 410 then ENOENT
            else if ret = 408 \<or> ret = 504 then ETIMEDOUT
            else if ret = 503 then EAGAIN
            else if 400 \<le> ret \<and> ret \<le> 499 then EINVAL
            else EIO)
       \<and> (ret = 416 \<longrightarrow> errno w' = EINVAL)
       \<and> (stm s = None \<longrightarrow> curlstream_read w s n = (Returned c, [], s', w'))"
proof -
  from open_helper_fail [OF assms(1,2)]
  have a: "stm s' = None" and b: "errno w' = errno_of_response ret"
    by (simp_all add: assms(3))
  have c: "stm s = None \<longrightarrow> curlstream_read w s n = (Returned c, [], s', w')"
    using assms(1,2) by (simp add: curlstream_read_def)
  show ?thesis
    using a c unfolding b by (auto simp: errno_of_response_def)
qed

theorem open_helper_errno_witness:
  "fst (open_helper (snd (test_seek (- 1) 4)) (fst (test_seek (- 1) 4))) = Returned (- 4)
   \<and> response_code (lazy_session (snd (test_seek (- 1) 4)) (fst (test_seek (- 1) 4))) = 416
   \<and> stm (fst (snd (open_helper (snd (test_seek (- 1) 4)) (fst (test_seek (- 1) 4))))) = None
   \<and> errno (snd (snd (open_helper (snd (test_seek (- 1) 4)) (fst (test_seek (- 1) 4))))) = EINVAL
   \<and> curlstream_read (snd (test_seek (- 1) 4)) (fst (test_seek (- 1) 4)) 10
     = (Returned (- 4), [], snd (open_helper (snd (test_seek (- 1) 4)) (fst (test_seek (- 1) 4))))"
proof -
  let ?w = "snd (test_seek (- 1) 4)" and ?s = "fst (test_seek (- 1) 4)"
  have r: "fst (open_helper ?w ?s) = Returned (- 4)" by code_simp
  have h1: "open_helper ?w ?s = (Returned (- 4), fst (snd (open_helper ?w ?s)), snd (snd (open_helper ?w ?s)))"
    by (metis r prod.collapse)
  have h2: "(- 4 :: int) \<noteq> 0" by simp
  have h3: "416 = response_code (lazy_session ?w ?s)" by code_simp
  have h4: "stm ?s = None" by code_simp
  from open_helper_errno [OF h1 h2 h3, of 10] r h3 h4 show ?thesis
    by simp
qed

text \<open>
  The claim as first stated fails: the served file has 4 bytes, the stream is moved to
  offset 4 and the server answers 416; the read returns -4 with \<^verbatim>\<open>errno = EINVAL\<close>,
  not 0.
\<close>

theorem range_416_counterexample:
  "files_m (test_httpd (- 1)) test_url = Some [1, 2, 3, 4]
   \<and> ofs (fst (test_seek (- 1) 4)) = 4
   \<and> (case curlstream_read (snd (test_seek (- 1) 4)) (fst (test_seek (- 1) 4)) 10 of
        (r, bytes, s', w') \<Rightarrow>
          r = Returned (- 4) \<and> r \<noteq> Returned 0 \<and> errno w' = EINVAL
          \<and> requests w' = [(test_url, None), (test_url, Some 4)]
          \<and> response_code (lazy_session (snd (test_seek (- 1) 4)) (fst (test_seek (- 1) 4))) = 416)"
  by code_simp

section \<open>errno after curlstream_read\<close>

lemma lib_errno_quiet:
  assumes "setup_errno sess = None" and "list_all (\<lambda>p. errno_left p = None) (sess_script sess)"
  shows "lib_errno sess st e = e"
proof -
  have "curl_script (CurlStream_new sess) = sess_script sess" by (simp add: CurlStream_new_def)
  with assms(2) have "errno_after (steps_run (CurlStream_new sess) st) e = e"
    by (simp add: steps_run_quiet)
  with assms(1) show ?thesis by (simp add: lib_errno_def)
qed

lemma read_stm_errno:
  assumes "read_stm w s st n = (Returned c, bytes, s', w')"
  shows "(c \<noteq> 0 \<longrightarrow> errno w' = EIO)
       \<and> (c = 0 \<longrightarrow> (\<exists>st'. stm s' = Some st'
                       \<and> errno w' = errno_after (steps_run st st') (errno w)))"
  using assms
  by (auto simp: read_stm_def Let_def split: prod.splits outcome.splits if_splits)

text \<open>
  C8 (amended). A \<^verbatim>\<open>curlstream_read\<close> that returns a nonzero value (a positive count
  included) sets \<^verbatim>\<open>errno = EIO\<close> whenever the value comes from \<^verbatim>\<open>CurlStream::read\<close>; when
  the box had no session and \<^verbatim>\<open>open_helper\<close> fails, the value is the open's and \<^verbatim>\<open>errno\<close> is
  the one \<^verbatim>\<open>open_helper\<close> chose from the response code. A read that returns 0 assigns
  nothing to \<^verbatim>\<open>errno\<close>: \<^verbatim>\<open>errno\<close> is then what the library calls made during the call left
  in it, those of the lazy open if the box had no session and those of the \<^verbatim>\<open>read\<close>. It
  is as before the call when these calls leave \<^verbatim>\<open>errno\<close> alone, and when the end of the body
  had already been reported, where no library call is made.
\<close>

theorem curlstream_read_errno:
  assumes "curlstream_read w s n = (Returned c, bytes, s', w')"
  shows "(c \<noteq> 0 \<longrightarrow>
            errno w' =
              (if stm s = None \<and> fst (open_helper w s) \<noteq> Returned 0
               then errno_of_response (response_code (lazy_session w s))
               else EIO))
       \<and> (c = 0 \<longrightarrow>
            (\<exists>st'. stm s' = Some st'
               \<and> errno w' =
                   (case stm s of
                      Some st \<Rightarrow> errno_after (steps_run st st') (errno w)
                    | None \<Rightarrow>
                        errno_after (steps_run (lazy_session w s) st')
                          (lib_errno (network w (requests w) (request_of (url s) (ofs s)))
                             (lazy_session w s) (errno w)))))
       \<and> (c = 0 \<and> errno_quiet w s \<longrightarrow> errno w' = errno w)
       \<and> (c = 0 \<and> (\<exists>st. stm s = Some st \<and> final_read_rc_m st \<le> 0) \<longrightarrow> errno w' = errno w)"
proof (cases "stm s")
  case None
  let ?sess = "network w (requests w) (request_of (url s) (ofs s))"
  obtain r s1 w1 where oh: "open_helper w s = (r, s1, w1)"
    by (cases "open_helper w s") auto
  show ?thesis
  proof (cases "r = Returned 0")
    case True
    with oh open_helper_ok [of w s s1 w1] have
      st: "stm s1 = Some (lazy_session w s)"
      and e1: "errno w1 = lib_errno ?sess (lazy_session w s) (errno w)" by auto
    from assms None oh True st
    have rs: "read_stm w1 s1 (lazy_session w s) n = (Returned c, bytes, s', w')"
      by (simp add: curlstream_read_def)
    note re = read_stm_errno [OF rs]
    have quiet: "errno w' = errno w" if c0: "c = 0" and q: "errno_quiet w s"
    proof -
      from q None have q1: "setup_errno ?sess = None"
        and q2: "list_all (\<lambda>p. errno_left p = None) (sess_script ?sess)"
        by (simp_all add: errno_quiet_def)
      have "set (curl_script (lazy_session w s)) \<subseteq> set (curl_script (CurlStream_new ?sess))"
        unfolding lazy_session_def
        by (rule CurlStream_open_script [of _ "ofs s" "fst (CurlStream_open (CurlStream_new ?sess) (ofs s))"])
          simp
      with q2 have q3: "list_all (\<lambda>p. errno_left p = None) (curl_script (lazy_session w s))"
        by (auto simp: list_all_iff CurlStream_new_def)
      from re c0 obtain st' where
        "errno w' = errno_after (steps_run (lazy_session w s) st') (errno w1)" by auto
      with steps_run_quiet [OF q3] have "errno w' = errno w1" by simp
      with e1 lib_errno_quiet [OF q1 q2] show ?thesis by simp
    qed
    from re e1 None oh True quiet show ?thesis by auto
  next
    case False
    with assms None oh obtain c' where r: "r = Returned c'" and c': "c' \<noteq> 0"
      and eq: "c = c'" "s' = s1" "w' = w1"
      by (cases r) (auto simp: curlstream_read_def split: if_splits)
    from open_helper_fail [of w s c' s1 w1] oh r c'
    have "errno w1 = errno_of_response (response_code (lazy_session w s))" by simp
    with None oh False eq c' show ?thesis by simp
  qed
next
  case (Some st)
  with assms have rs: "read_stm w s st n = (Returned c, bytes, s', w')"
    by (simp add: curlstream_read_def)
  note re = read_stm_errno [OF rs]
  have quiet: "errno w' = errno w" if c0: "c = 0" and q: "errno_quiet w s"
  proof -
    from q Some have q3: "list_all (\<lambda>p. errno_left p = None) (curl_script st)"
      by (simp add: errno_quiet_def)
    from re c0 obtain st' where "errno w' = errno_after (steps_run st st') (errno w)" by auto
    with steps_run_quiet [OF q3] show ?thesis by simp
  qed
  have latched: "errno w' = errno w" if c0: "c = 0" and l: "final_read_rc_m st \<le> 0"
  proof -
    from l have "CurlStream_read st n = (Returned (final_read_rc_m st), [], st)"
      by (simp add: CurlStream_read_def)
    with rs c0 show ?thesis
      by (auto simp: read_stm_def Let_def errno_after_def split: if_splits)
  qed
  from re Some quiet latched show ?thesis by auto
qed

theorem curlstream_read_errno_witness:
  "curlstream_read (snd (test_open (- 1))) (fst (test_open (- 1))) 10
     = (Returned 1, [1], snd (snd (curlstream_read (snd (test_open (- 1))) (fst (test_open (- 1))) 10)))
   \<and> errno (snd (test_open (- 1))) = 0
   \<and> errno (snd (snd (snd (curlstream_read (snd (test_open (- 1))) (fst (test_open (- 1))) 10)))) = EIO
   \<and> fst (curlstream_read connect_world \<lparr> url = test_url, ofs = 0, stm = None \<rparr> 10) = Returned 0
   \<and> errno connect_world = 77
   \<and> errno (snd (snd (snd
        (curlstream_read connect_world \<lparr> url = test_url, ofs = 0, stm = None \<rparr> 10)))) = 115"
proof -
  let ?w = "snd (test_open (- 1))" and ?s = "fst (test_open (- 1))"
  let ?r = "curlstream_read ?w ?s 10"
  have a: "fst ?r = Returned 1" by code_simp
  have b: "fst (snd ?r) = [1]" by code_simp
  have h: "?r = (Returned 1, [1], fst (snd (snd ?r)), snd (snd (snd ?r)))"
    by (metis a b prod.collapse)
  have s: "stm ?s \<noteq> None" by code_simp
  have e: "errno ?w = 0" by code_simp
  have h': "?r = (Returned 1, [1], snd (snd ?r))"
    by (metis a b prod.collapse)
  let ?b = "\<lparr> url = test_url, ofs = 0, stm = None \<rparr>"
  let ?q = "curlstream_read connect_world ?b 10"
  have a2: "fst ?q = Returned 0" by code_simp
  have h2: "?q = (Returned 0, fst (snd ?q), fst (snd (snd ?q)), snd (snd (snd ?q)))"
    by (metis a2 prod.collapse)
  have e2: "errno connect_world = 77" by code_simp
  have v: "(case stm (fst (snd (snd ?q))) of
              Some st' \<Rightarrow>
                errno_after (steps_run (lazy_session connect_world ?b) st')
                  (lib_errno (network connect_world (requests connect_world)
                       (request_of (url ?b) (ofs ?b)))
                     (lazy_session connect_world ?b) (errno connect_world))
            | None \<Rightarrow> 0) = 115"
    by code_simp
  from curlstream_read_errno [OF h2] v have "errno (snd (snd (snd ?q))) = 115"
    by auto
  with curlstream_read_errno [OF h] s e h' a2 e2 show ?thesis
    by simp
qed

text \<open>
  The claim as first stated fails in both halves. After a seek past the end the read
  reopens, the server answers 416, and the read returns -4 with \<^verbatim>\<open>errno = EINVAL\<close>. And a
  read that opens a session for an empty resource returns 0 while the library calls have
  changed \<^verbatim>\<open>errno\<close> from 77 to 115.
\<close>

theorem errno_not_eio_counterexample:
  "(case curlstream_read (snd (test_seek (- 1) 9)) (fst (test_seek (- 1) 9)) 10 of
      (r, bytes, s', w') \<Rightarrow>
        r = Returned (- 4) \<and> r \<noteq> Returned 0 \<and> errno w' = EINVAL \<and> errno w' \<noteq> EIO)
   \<and> (case curlstream_read connect_world \<lparr> url = test_url, ofs = 0, stm = None \<rparr> 10 of
      (r, bytes, s', w') \<Rightarrow>
        r = Returned 0 \<and> errno connect_world = 77 \<and> errno w' = 115
        \<and> errno w' \<noteq> errno connect_world)"
  by code_simp

section \<open>Which response codes open accepts\<close>

lemma code_arrives_nonzero: "code_arrives sc c \<Longrightarrow> c \<noteq> 0"
  by (induction sc) (auto split: if_splits)

lemma perform_healthy:
  assumes "curl_script st = p # ps" and "healthy p" and "final_msg_m st = None"
    and "response_code_m st = 0"
    and "st2 = st\<lparr> curl_script := ps, buf_m := foldl fifo_write (buf_m st) (written p),
                   response_code_m := getinfo_code p \<rparr>"
  shows "perform st =
     (if still_running p = 0 then
        (case read_msgs (info_msgs p) None of
           None \<Rightarrow> (AssertFailed, st2)
         | Some r \<Rightarrow> (Returned 0, st2\<lparr> final_msg_m := Some r \<rparr>))
      else (Returned 0, st2))"
  using assms by (auto simp: perform_def healthy_def Let_def split: option.splits)

lemma open_wait_code:
  assumes "code_arrives (curl_script st) c" and "final_msg_m st = None"
    and "response_code_m st = 0"
  shows "\<exists>st'. open_wait st = (Returned 0, st') \<and> response_code_m st' = c
           \<and> (final_msg_m st' = None \<or> final_msg_m st' = Some CURLE_OK)"
  using assms
proof (induction "curl_script st" arbitrary: st)
  case Nil
  then show ?case by simp
next
  case (Cons p ps)
  from Cons.hyps(2) have sc: "curl_script st = p # ps" by simp
  from Cons.prems(1) sc have hp: "healthy p" by simp
  define st2 where "st2 = st\<lparr> curl_script := ps,
      buf_m := foldl fifo_write (buf_m st) (written p), response_code_m := getinfo_code p \<rparr>"
  note pf = perform_healthy [OF sc hp Cons.prems(2,3) st2_def]
  have bl: "block st = Returned 0" using sc hp by (simp add: block_def healthy_def)
  note ow = open_wait_step [OF Cons.prems(2,3), unfolded bl]
  show ?case
  proof (cases "getinfo_code p = 0")
    case True
    with Cons.prems(1) sc have run: "still_running p \<noteq> 0" and rest: "code_arrives ps c" by simp_all
    from pf run have p2: "perform st = (Returned 0, st2)" by simp
    have "ps = curl_script st2" "code_arrives (curl_script st2) c" "final_msg_m st2 = None"
      "response_code_m st2 = 0"
      using rest Cons.prems(2) True by (simp_all add: st2_def)
    from Cons.hyps(1) [OF this] ow p2 show ?thesis by simp
  next
    case False
    with Cons.prems(1) sc have c: "getinfo_code p = c"
      and fin: "still_running p \<noteq> 0 \<or> read_msgs (info_msgs p) None = Some CURLE_OK"
      by simp_all
    show ?thesis
    proof (cases "still_running p = 0")
      case True
      with fin pf have p2: "perform st = (Returned 0, st2\<lparr> final_msg_m := Some CURLE_OK \<rparr>)"
        by simp
      have "open_wait (st2\<lparr> final_msg_m := Some CURLE_OK \<rparr>)
              = (Returned 0, st2\<lparr> final_msg_m := Some CURLE_OK \<rparr>)"
        by (rule open_wait_stop) simp
      with ow p2 c show ?thesis by (simp add: st2_def)
    next
      case run: False
      with pf have p2: "perform st = (Returned 0, st2)" by simp
      have "open_wait st2 = (Returned 0, st2)"
        by (rule open_wait_stop) (simp add: st2_def False)
      with ow p2 c Cons.prems(2) show ?thesis by (simp add: st2_def)
    qed
  qed
qed

lemma CurlStream_open_code:
  assumes su: "sess_setup sess = SetupOk" and ca: "code_arrives (sess_script sess) c"
  shows "\<exists>st. CurlStream_open (CurlStream_new sess) off =
           (Returned (if c < 200 \<or> 299 < c then - 4
                      else if 0 < off \<and> c \<noteq> 206 then - 8 else 0), st)
         \<and> response_code_m st = c"
proof -
  let ?st0 = "(CurlStream_new sess)\<lparr> m_m := True, h_m := True \<rparr>"
  let ?v = "if c < 200 \<or> 299 < c then - 4 else if 0 < off \<and> c \<noteq> 206 then - 8 else (0 :: int)"
  from code_arrives_nonzero [OF ca] have c0: "c \<noteq> 0" .
  obtain p ps where sc: "sess_script sess = p # ps" using ca by (cases "sess_script sess") auto
  from ca sc have hp: "healthy p" by simp
  define st2 where "st2 = ?st0\<lparr> curl_script := ps,
      buf_m := foldl fifo_write (buf_m ?st0) (written p), response_code_m := getinfo_code p \<rparr>"
  have "perform ?st0 =
     (if still_running p = 0 then
        (case read_msgs (info_msgs p) None of
           None \<Rightarrow> (AssertFailed, st2)
         | Some r \<Rightarrow> (Returned 0, st2\<lparr> final_msg_m := Some r \<rparr>))
      else (Returned 0, st2))"
    by (rule perform_healthy [OF _ hp _ _ st2_def]) (simp_all add: CurlStream_new_def sc)
  note pf = this
  have chk: "open_checks t off = (Returned ?v, t)"
    if "response_code_m t = c" and "final_msg_m t = None \<or> final_msg_m t = Some CURLE_OK" for t
    using that c0 by (auto simp: open_checks_def final_status_def)
  have opn: "CurlStream_open (CurlStream_new sess) off =
      (case perform ?st0 of
         (Returned s, st1) \<Rightarrow>
           if s \<noteq> 0 then (Returned s, st1)
           else
             (case open_wait st1 of
                (Returned s2, st2) \<Rightarrow>
                  if s2 \<noteq> 0 then (Returned s2, st2) else open_checks st2 off
              | (AssertFailed, st2) \<Rightarrow> (AssertFailed, st2)
              | (Waiting, st2) \<Rightarrow> (Waiting, st2))
       | (AssertFailed, st1) \<Rightarrow> (AssertFailed, st1)
       | (Waiting, st1) \<Rightarrow> (Waiting, st1))"
    using su by (simp add: CurlStream_open_def CurlStream_new_def)
  show ?thesis
  proof (cases "getinfo_code p = 0")
    case True
    with ca sc have run: "still_running p \<noteq> 0" and rest: "code_arrives ps c" by simp_all
    from pf run have p2: "perform ?st0 = (Returned 0, st2)" by simp
    have "code_arrives (curl_script st2) c" "final_msg_m st2 = None" "response_code_m st2 = 0"
      using rest True by (simp_all add: st2_def CurlStream_new_def)
    from open_wait_code [OF this] obtain st' where
      ow: "open_wait st2 = (Returned 0, st')" and rc: "response_code_m st' = c"
      and fm: "final_msg_m st' = None \<or> final_msg_m st' = Some CURLE_OK" by blast
    from opn p2 ow chk [OF rc fm] rc show ?thesis by simp
  next
    case False
    with ca sc have c: "getinfo_code p = c"
      and fin: "still_running p \<noteq> 0 \<or> read_msgs (info_msgs p) None = Some CURLE_OK"
      by simp_all
    show ?thesis
    proof (cases "still_running p = 0")
      case True
      let ?t = "st2\<lparr> final_msg_m := Some CURLE_OK \<rparr>"
      from True fin pf have p2: "perform ?st0 = (Returned 0, ?t)" by simp
      have ow: "open_wait ?t = (Returned 0, ?t)" by (rule open_wait_stop) simp
      have "response_code_m ?t = c" "final_msg_m ?t = None \<or> final_msg_m ?t = Some CURLE_OK"
        using c by (simp_all add: st2_def)
      from opn p2 ow chk [OF this] this(1) show ?thesis by simp
    next
      case run: False
      with pf have p2: "perform ?st0 = (Returned 0, st2)" by simp
      have ow: "open_wait st2 = (Returned 0, st2)"
        by (rule open_wait_stop) (simp add: st2_def False)
      have "response_code_m st2 = c" "final_msg_m st2 = None \<or> final_msg_m st2 = Some CURLE_OK"
        using c by (simp_all add: st2_def CurlStream_new_def)
      from opn p2 ow chk [OF this] this(1) show ?thesis by simp
    qed
  qed
qed

lemma open_checks_cases:
  assumes "open_checks st1 off = (Returned c, st)"
  shows "(c = 0 \<or> c = - 1 \<or> c = - 4 \<or> c = - 8)
       \<and> (c = 0 \<longrightarrow> 200 \<le> response_code_m st \<and> response_code_m st \<le> 299
                    \<and> (0 < off \<longrightarrow> response_code_m st = 206))
       \<and> (c = - 4 \<longrightarrow> response_code_m st < 200 \<or> 299 < response_code_m st)
       \<and> (c = - 8 \<longrightarrow> 0 < off \<and> 200 \<le> response_code_m st \<and> response_code_m st \<le> 299
                    \<and> response_code_m st \<noteq> 206)"
  using assms by (auto simp: open_checks_def split: if_splits)

lemma CurlStream_open_cases:
  assumes "CurlStream_open st0 off = (Returned c, st)" and "\<not> m_m st0" and "\<not> h_m st0"
  shows "(c = 0 \<or> c = - 1 \<or> c = - 4 \<or> c = - 8)
       \<and> (c = 0 \<longrightarrow> 200 \<le> response_code_m st \<and> response_code_m st \<le> 299
                    \<and> (0 < off \<longrightarrow> response_code_m st = 206))
       \<and> (c = - 4 \<longrightarrow> response_code_m st < 200 \<or> 299 < response_code_m st)
       \<and> (c = - 8 \<longrightarrow> 0 < off \<and> 200 \<le> response_code_m st \<and> response_code_m st \<le> 299
                    \<and> response_code_m st \<noteq> 206)"
proof (cases "curl_setup st0 = SetupOk")
  case False
  with assms have "c = - 1"
    by (cases "curl_setup st0") (auto simp: CurlStream_open_def)
  then show ?thesis by simp
next
  case True
  obtain x st1 where p: "perform (st0\<lparr> m_m := True, h_m := True \<rparr>) = (x, st1)"
    by (cases "perform (st0\<lparr> m_m := True, h_m := True \<rparr>)") auto
  show ?thesis
  proof (cases x)
    case AssertFailed
    with assms True p show ?thesis by (simp add: CurlStream_open_def)
  next
    case Waiting
    with assms True p show ?thesis by (simp add: CurlStream_open_def)
  next
    case (Returned s)
    note px = p [unfolded Returned]
    show ?thesis
    proof (cases "s = 0")
      case False
      with assms True px have "c = s" by (simp add: CurlStream_open_def)
      with perform_status [OF px] False show ?thesis by simp
    next
      case s0: True
      obtain y st2 where ow: "open_wait st1 = (y, st2)" by (cases "open_wait st1") auto
      show ?thesis
      proof (cases y)
        case AssertFailed
        with assms True px s0 ow show ?thesis by (simp add: CurlStream_open_def)
      next
        case Waiting
        with assms True px s0 ow show ?thesis by (simp add: CurlStream_open_def)
      next
        case (Returned s2)
        note owx = ow [unfolded Returned]
        show ?thesis
        proof (cases "s2 = 0")
          case False
          with assms True px s0 owx have "c = s2" by (simp add: CurlStream_open_def)
          with open_wait_status [OF owx] False show ?thesis by simp
        next
          case True
          with assms \<open>curl_setup st0 = SetupOk\<close> px s0 owx
          have "open_checks st2 off = (Returned c, st)" by (simp add: CurlStream_open_def)
          from open_checks_cases [OF this] show ?thesis .
        qed
      qed
    qed
  qed
qed

lemma curlstream_open_unfold:
  "curlstream_open w u off =
     (case CurlStream_open (CurlStream_new (network w (requests w) (request_of u off))) off of
        (Returned c, st) \<Rightarrow>
          if c = 0 then (Returned 0, Some \<lparr> url = u, ofs = off, stm = Some st \<rparr>,
                         w\<lparr> requests := requests w @ [request_of u off],
                            errno := lib_errno (network w (requests w) (request_of u off)) st
                                       (errno w) \<rparr>)
          else (Returned c, None,
                w\<lparr> requests := requests w @ [request_of u off],
                   errno := errno_of_response (response_code st) \<rparr>)
      | (AssertFailed, st) \<Rightarrow>
          (AssertFailed, None, w\<lparr> requests := requests w @ [request_of u off] \<rparr>)
      | (Waiting, st) \<Rightarrow>
          (Waiting, None, w\<lparr> requests := requests w @ [request_of u off] \<rparr>))"
  by (simp add: curlstream_open_def open_helper_def Let_def
      split: prod.splits outcome.splits)

lemma curlstream_open_arrives:
  assumes a1: "curlstream_open w u off = (r, b, w')"
    and a2: "st = lazy_session w \<lparr> url = u, ofs = off, stm = None \<rparr>"
    and a3: "sess = network w (requests w) (request_of u off)"
    and su: "sess_setup sess = SetupOk" and ca: "code_arrives (sess_script sess) c"
  shows "response_code st = c
            \<and> r = Returned (if c < 200 \<or> 299 < c then - 4
                             else if 0 < off \<and> c \<noteq> 206 then - 8 else 0)
            \<and> b = (if 200 \<le> c \<and> c \<le> 299 \<and> (off \<le> 0 \<or> c = 206)
                   then Some \<lparr> url = u, ofs = off, stm = Some st \<rparr> else None)"
proof -
  define v :: int where
    "v = (if c < 200 \<or> 299 < c then - 4 else if 0 < off \<and> c \<noteq> 206 then - 8 else 0)"
  from CurlStream_open_code [OF su ca, of off] obtain st' where
    o: "CurlStream_open (CurlStream_new sess) off = (Returned v, st')"
    and rc: "response_code_m st' = c" unfolding v_def by blast
  from o a2 a3 have st: "st = st'" by (simp add: lazy_session_def)
  have v0: "v = 0 \<longleftrightarrow> 200 \<le> c \<and> c \<le> 299 \<and> (off \<le> 0 \<or> c = 206)"
    by (auto simp: v_def)
  from a1 have "(case CurlStream_open (CurlStream_new sess) off of
        (Returned c, st) \<Rightarrow>
          if c = 0 then (Returned 0, Some \<lparr> url = u, ofs = off, stm = Some st \<rparr>,
                         w\<lparr> requests := requests w @ [request_of u off],
                            errno := lib_errno sess st (errno w) \<rparr>)
          else (Returned c, None,
                w\<lparr> requests := requests w @ [request_of u off],
                   errno := errno_of_response (response_code st) \<rparr>)
      | (AssertFailed, st) \<Rightarrow>
          (AssertFailed, None, w\<lparr> requests := requests w @ [request_of u off] \<rparr>)
      | (Waiting, st) \<Rightarrow>
          (Waiting, None, w\<lparr> requests := requests w @ [request_of u off] \<rparr>)) = (r, b, w')"
    unfolding curlstream_open_unfold a3 .
  then have "(if v = 0 then (Returned 0, Some \<lparr> url = u, ofs = off, stm = Some st' \<rparr>,
                         w\<lparr> requests := requests w @ [request_of u off],
                            errno := lib_errno sess st' (errno w) \<rparr>)
          else (Returned v, None,
                w\<lparr> requests := requests w @ [request_of u off],
                   errno := errno_of_response (response_code st') \<rparr>)) = (r, b, w')"
    unfolding o by simp
  then have "r = Returned v"
    "b = (if v = 0 then Some \<lparr> url = u, ofs = off, stm = Some st' \<rparr> else None)"
    by (cases "v = 0"; simp)+
  with v0 st rc show ?thesis by (simp add: response_code_def v_def)
qed


text \<open>
  C2. \<^verbatim>\<open>curlstream_open\<close> at offset \<open>off\<close> returns 0, and hands out a box, only when the
  session has received a response code from 200 to 299, and for \<open>off > 0\<close> only when the
  code is exactly 206. A code outside 200..299 never gives success, nor does a code other
  than 206 at a positive offset. The value returned is 0, -1, -4 or -8; -4 is returned
  only for a code outside 200..299 and -8 only at a positive offset for a 2xx code other
  than 206. And when the response code \<open>c\<close> of the server reaches the client
  (\<open>code_arrives\<close>: set-up succeeds, the rounds are healthy up to the one that reports
  \<open>c\<close>, and the transfer has not failed by then), the code alone decides the result: -4
  for a code outside 200..299, -8 for a 2xx code other than 206 at a positive offset, and
  0 with a box otherwise. So at offset 0 every 2xx code is accepted, at a positive offset
  206 and no other code, and every code outside 200..299 makes the open fail with -4.
\<close>

theorem curlstream_open_codes:
  assumes "curlstream_open w u off = (r, b, w')"
    and "st = lazy_session w \<lparr> url = u, ofs = off, stm = None \<rparr>"
    and "sess = network w (requests w) (request_of u off)"
  shows "(r = Returned 0 \<longrightarrow>
            b = Some \<lparr> url = u, ofs = off, stm = Some st \<rparr>
            \<and> 200 \<le> response_code st \<and> response_code st \<le> 299
            \<and> (0 < off \<longrightarrow> response_code st = 206))
       \<and> (response_code st < 200 \<or> 299 < response_code st \<longrightarrow> r \<noteq> Returned 0 \<and> b = None)
       \<and> (0 < off \<and> response_code st \<noteq> 206 \<longrightarrow> r \<noteq> Returned 0 \<and> b = None)
       \<and> (\<forall>c. r = Returned c \<longrightarrow> c = 0 \<or> c = - 1 \<or> c = - 4 \<or> c = - 8)
       \<and> (r = Returned (- 4) \<longrightarrow> response_code st < 200 \<or> 299 < response_code st)
       \<and> (r = Returned (- 8) \<longrightarrow>
            0 < off \<and> 200 \<le> response_code st \<and> response_code st \<le> 299
            \<and> response_code st \<noteq> 206)
       \<and> (sess_setup sess = SetupOk \<and> code_arrives (sess_script sess) c \<longrightarrow>
            response_code st = c
            \<and> r = Returned (if c < 200 \<or> 299 < c then - 4
                             else if 0 < off \<and> c \<noteq> 206 then - 8 else 0)
            \<and> b = (if 200 \<le> c \<and> c \<le> 299 \<and> (off \<le> 0 \<or> c = 206)
                   then Some \<lparr> url = u, ofs = off, stm = Some st \<rparr> else None))"
proof -
  have codes: "(r = Returned 0 \<longrightarrow>
            b = Some \<lparr> url = u, ofs = off, stm = Some st \<rparr>
            \<and> 200 \<le> response_code st \<and> response_code st \<le> 299
            \<and> (0 < off \<longrightarrow> response_code st = 206))
       \<and> (response_code st < 200 \<or> 299 < response_code st \<longrightarrow> r \<noteq> Returned 0 \<and> b = None)
       \<and> (0 < off \<and> response_code st \<noteq> 206 \<longrightarrow> r \<noteq> Returned 0 \<and> b = None)
       \<and> (\<forall>c. r = Returned c \<longrightarrow> c = 0 \<or> c = - 1 \<or> c = - 4 \<or> c = - 8)
       \<and> (r = Returned (- 4) \<longrightarrow> response_code st < 200 \<or> 299 < response_code st)
       \<and> (r = Returned (- 8) \<longrightarrow>
            0 < off \<and> 200 \<le> response_code st \<and> response_code st \<le> 299
            \<and> response_code st \<noteq> 206)"
  proof -
    let ?new = "CurlStream_new (network w (requests w) (request_of u off))"
    obtain x where x: "CurlStream_open ?new off = (x, st)"
      using assms(2) by (cases "CurlStream_open ?new off") (simp add: lazy_session_def)
    have new: "\<not> m_m ?new" "\<not> h_m ?new" by (simp_all add: CurlStream_new_def)
    show ?thesis
    proof (cases x)
      case (Returned c)
      from CurlStream_open_cases [OF x [unfolded Returned] new]
      have cs: "c = 0 \<or> c = - 1 \<or> c = - 4 \<or> c = - 8"
        and c0: "c = 0 \<longrightarrow> 200 \<le> response_code_m st \<and> response_code_m st \<le> 299
                      \<and> (0 < off \<longrightarrow> response_code_m st = 206)"
        and c4: "c = - 4 \<longrightarrow> response_code_m st < 200 \<or> 299 < response_code_m st"
        and c8: "c = - 8 \<longrightarrow> 0 < off \<and> 200 \<le> response_code_m st \<and> response_code_m st \<le> 299
                      \<and> response_code_m st \<noteq> 206"
        by auto
      from assms(1) x Returned have rb: "r = Returned c"
        "b = (if c = 0 then Some \<lparr> url = u, ofs = off, stm = Some st \<rparr> else None)"
        by (auto simp: curlstream_open_unfold split: if_splits)
      show ?thesis
        using cs c0 c4 c8 unfolding rb response_code_def by auto
    next
      case AssertFailed
      with assms(1) x have "r = AssertFailed" "b = None"
        by (auto simp: curlstream_open_unfold)
      then show ?thesis by simp
    next
      case Waiting
      with assms(1) x have "r = Waiting" "b = None"
        by (auto simp: curlstream_open_unfold)
      then show ?thesis by simp
    qed
  qed
  have arrives: "sess_setup sess = SetupOk \<and> code_arrives (sess_script sess) c \<longrightarrow>
            response_code st = c
            \<and> r = Returned (if c < 200 \<or> 299 < c then - 4
                             else if 0 < off \<and> c \<noteq> 206 then - 8 else 0)
            \<and> b = (if 200 \<le> c \<and> c \<le> 299 \<and> (off \<le> 0 \<or> c = 206)
                   then Some \<lparr> url = u, ofs = off, stm = Some st \<rparr> else None)"
  proof
    assume "sess_setup sess = SetupOk \<and> code_arrives (sess_script sess) c"
    then have su: "sess_setup sess = SetupOk" and ca: "code_arrives (sess_script sess) c"
      by simp_all
    from curlstream_open_arrives [OF assms su ca]
    show "response_code st = c
            \<and> r = Returned (if c < 200 \<or> 299 < c then - 4
                             else if 0 < off \<and> c \<noteq> 206 then - 8 else 0)
            \<and> b = (if 200 \<le> c \<and> c \<le> 299 \<and> (off \<le> 0 \<or> c = 206)
                   then Some \<lparr> url = u, ofs = off, stm = Some st \<rparr> else None)" .
  qed
  from codes arrives show ?thesis by (elim conjE) (intro conjI, assumption+)
qed

theorem curlstream_open_codes_witness:
  "fst (curlstream_open (test_world (- 1)) test_url 2) = Returned 0
   \<and> fst (snd (curlstream_open (test_world (- 1)) test_url 2))
     = Some \<lparr> url = test_url, ofs = 2,
              stm = Some (lazy_session (test_world (- 1)) \<lparr> url = test_url, ofs = 2, stm = None \<rparr>) \<rparr>
   \<and> response_code (lazy_session (test_world (- 1)) \<lparr> url = test_url, ofs = 2, stm = None \<rparr>) = 206
   \<and> response_code (lazy_session (test_world (- 1)) \<lparr> url = test_url, ofs = 9, stm = None \<rparr>) = 416
   \<and> fst (curlstream_open (test_world (- 1)) test_url 9) = Returned (- 4)
   \<and> fst (snd (curlstream_open (test_world (- 1)) test_url 9)) = None
   \<and> sess_setup (late_session 204) = SetupOk
   \<and> code_arrives (sess_script (late_session 204)) 204
   \<and> fst (curlstream_open (late_world 204) test_url 0) = Returned 0
   \<and> fst (snd (curlstream_open (late_world 204) test_url 0))
     = Some \<lparr> url = test_url, ofs = 0,
              stm = Some (lazy_session (late_world 204) \<lparr> url = test_url, ofs = 0, stm = None \<rparr>) \<rparr>
   \<and> code_arrives (sess_script (late_session 200)) 200
   \<and> fst (curlstream_open (late_world 200) test_url 3) = Returned (- 8)
   \<and> code_arrives (sess_script (late_session 404)) 404
   \<and> fst (curlstream_open (late_world 404) test_url 0) = Returned (- 4)"
proof -
  let ?w = "test_world (- 1)"
  let ?o2 = "curlstream_open ?w test_url 2" and ?o9 = "curlstream_open ?w test_url 9"
  have r2: "fst ?o2 = Returned 0" by code_simp
  have h2: "?o2 = (Returned 0, fst (snd ?o2), snd (snd ?o2))" by (metis r2 prod.collapse)
  have c9: "response_code (lazy_session ?w \<lparr> url = test_url, ofs = 9, stm = None \<rparr>) = 416"
    by code_simp
  have r9: "fst ?o9 = Returned (- 4)" by code_simp
  have h9: "?o9 = (Returned (- 4), fst (snd ?o9), snd (snd ?o9))" by (metis r9 prod.collapse)
  have su: "sess_setup (late_session c) = SetupOk" for c by (simp add: late_session_def)
  have ca: "c \<noteq> 0 \<Longrightarrow> code_arrives (sess_script (late_session c)) c" for c
    by (simp add: late_session_def quiet_step_def healthy_def CURLM_OK_def CURLE_OK_def)
  have nw: "network (late_world c) (requests (late_world c)) (request_of test_url off)
              = late_session c" for c off
    by (simp add: late_world_def)
  have col: "x = (fst x, fst (snd x), snd (snd x))"
    for x :: "int outcome \<times> CurlStreamBox option \<times> world" by simp
  note a = curlstream_open_codes [OF col refl nw [symmetric], of 204 0 204]
  note b = curlstream_open_codes [OF col refl nw [symmetric], of 200 3 200]
  note c = curlstream_open_codes [OF col refl nw [symmetric], of 404 0 404]
  from curlstream_open_codes [OF h2 refl refl] curlstream_open_codes [OF h9 refl refl] r2 r9 c9
    a b c su ca [of 204] ca [of 200] ca [of 404]
  show ?thesis by simp
qed

section \<open>Which results of read are final\<close>

lemma CurlStream_read_latched_rc:
  "final_read_rc_m st \<le> 0 \<Longrightarrow> CurlStream_read st n = (Returned (final_read_rc_m st), [], st)"
  by (simp add: CurlStream_read_def)

lemma read_some_positive:
  assumes "read_some st n = (Returned r, bs, st')" and "buf_m st \<noteq> []" and "[] \<notin> set (buf_m st)"
    and "0 < n"
  shows "0 < r \<and> final_read_rc_m st' = final_read_rc_m st"
proof -
  obtain k xs q where rs: "readsome (buf_m st) n = (k, xs, q)"
    by (cases "readsome (buf_m st) n") auto
  with readsome_positive [OF assms(2,3,4)] have "0 < k" by simp
  with assms(1) rs show ?thesis by (auto simp: read_some_def)
qed

lemma read_some_keeps:
  "read_some st n = (x, bs, st') \<Longrightarrow> final_read_rc_m st' = final_read_rc_m st \<and> (\<exists>k. x = Returned (int k))"
  by (auto simp: read_some_def split: prod.splits)

text \<open>
  C9 (amended). Once \<^verbatim>\<open>CurlStream::read\<close> has returned 0 to a request for \<open>n > 0\<close> bytes
  (body complete), or -2, or a value \<open>r \<le> 0\<close> that it recorded in \<^verbatim>\<open>final_read_rc_\<close>
  (the final status of the transfer), every later read on the object returns the same
  value, delivers no bytes and leaves the object, its transport script included, as it
  is. The FIFO never holds an empty piece (\<^verbatim>\<open>write\<close> and \<^verbatim>\<open>readsome\<close> keep it so),
  which is the second assumption.
\<close>

theorem CurlStream_read_latched:
  assumes rd: "CurlStream_read st n = (Returned r, bs, st')"
    and fifo: "[] \<notin> set (buf_m st)"
    and cond: "r = 0 \<and> 0 < n \<or> r = - 2 \<or> r \<le> 0 \<and> final_read_rc_m st' = r"
  shows "CurlStream_read st' n' = (Returned r, [], st')"
proof (cases "final_read_rc_m st \<le> 0")
  case True
  with rd have "r = final_read_rc_m st" "st' = st" by (auto simp: CurlStream_read_def)
  with True show ?thesis by (simp add: CurlStream_read_latched_rc)
next
  case False
  note live = this
  show ?thesis
  proof (cases "\<not> h_m st \<or> response_code_m st < 200 \<or> 299 < response_code_m st")
    case True
    with rd live have "r = - 2" "st' = st" by (auto simp: CurlStream_read_def split: if_splits)
    with True live show ?thesis by (auto simp: CurlStream_read_def)
  next
    case False
    note ok = this
    have latched: ?thesis if "r \<le> 0" "final_read_rc_m st' = r"
      using CurlStream_read_latched_rc [of st' n'] that by simp
    show ?thesis
    proof (cases "buf_m st = []")
      case False
      with rd live ok have rs: "read_some st n = (Returned r, bs, st')"
        by (simp add: CurlStream_read_def)
      from read_some_keeps [OF rs] live have keep: "final_read_rc_m st' > 0" "0 \<le> r" by auto
      show ?thesis
      proof (cases "0 < n")
        case True
        from read_some_positive [OF rs False fifo True] cond keep show ?thesis by auto
      next
        case False
        with cond keep show ?thesis by auto
      qed
    next
      case True
      note empty = this
      obtain x st1 where p: "perform st = (x, st1)" by (cases "perform st") auto
      note k1 = perform_keeps [OF p]
      show ?thesis
      proof (cases x)
        case AssertFailed
        with rd live ok empty p show ?thesis by (simp add: CurlStream_read_def)
      next
        case Waiting
        with rd live ok empty p show ?thesis by (simp add: CurlStream_read_def)
      next
        case (Returned s)
        note px = p [unfolded Returned]
        show ?thesis
        proof (cases "s = 0")
          case False
          with rd live ok empty px have "r = s" "st' = st1" by (simp_all add: CurlStream_read_def)
          with perform_status [OF px] False k1(1) live cond show ?thesis by auto
        next
          case s0: True
          obtain y st2 where rw: "read_wait st1 = (y, st2)" by (cases "read_wait st1") auto
          have inv1: "final_read_rc_m st1 = final_read_rc_m st \<and> [] \<notin> set (buf_m st1)"
            using k1 fifo by simp
          from read_wait_rule [OF rw, of "\<lambda>s. final_read_rc_m s = final_read_rc_m st \<and> [] \<notin> set (buf_m s)"]
            inv1 perform_keeps(1,4)
          have inv2: "final_read_rc_m st2 = final_read_rc_m st" "[] \<notin> set (buf_m st2)"
            and ys: "\<forall>s. y = Returned s \<longrightarrow> s = 0 \<or> s = - 1"
            by (metis (no_types, lifting))+
          show ?thesis
          proof (cases y)
            case AssertFailed
            with rd live ok empty px s0 rw show ?thesis by (simp add: CurlStream_read_def)
          next
            case Waiting
            with rd live ok empty px s0 rw show ?thesis by (simp add: CurlStream_read_def)
          next
            case (Returned s2)
            note rwx = rw [unfolded Returned]
            show ?thesis
            proof (cases "s2 = 0")
              case False
              with rd live ok empty px s0 rwx have "r = s2" "st' = st2"
                by (simp_all add: CurlStream_read_def)
              with ys Returned False inv2 live cond show ?thesis by auto
            next
              case s20: True
              show ?thesis
              proof (cases "buf_m st2 = []")
                case True
                with rd live ok empty px s0 rwx s20
                have "(case final_status st2 of
                         Returned r0 \<Rightarrow> (Returned r0, [], st2\<lparr> final_read_rc_m := r0 \<rparr>)
                       | AssertFailed \<Rightarrow> (AssertFailed, [], st2)
                       | Waiting \<Rightarrow> (Waiting, [], st2)) = (Returned r, bs, st')"
                  by (simp add: CurlStream_read_def)
                then have "r \<le> 0" "final_read_rc_m st' = r"
                  by (auto simp: final_status_def split: option.splits if_splits outcome.splits)
                then show ?thesis by (rule latched)
              next
                case False
                with rd live ok empty px s0 rwx s20
                have rs: "read_some st2 n = (Returned r, bs, st')"
                  by (simp add: CurlStream_read_def)
                from read_some_keeps [OF rs] live inv2
                have keep: "final_read_rc_m st' > 0" "0 \<le> r" by auto
                show ?thesis
                proof (cases "0 < n")
                  case True
                  from read_some_positive [OF rs False inv2(2) True] cond keep show ?thesis by auto
                next
                  case False
                  with cond keep show ?thesis by auto
                qed
              qed
            qed
          qed
        qed
      qed
    qed
  qed
qed

theorem CurlStream_read_latched_witness:
  "CurlStream_read (opened (curl_transfer 1 \<lparr> status_code = 200, announced_size = 4, body_sent = [] \<rparr>)) 10
     = (Returned (- 1), [],
        snd (snd (CurlStream_read (opened (curl_transfer 1
           \<lparr> status_code = 200, announced_size = 4, body_sent = [] \<rparr>)) 10)))
   \<and> [] \<notin> set (buf_m (opened (curl_transfer 1
           \<lparr> status_code = 200, announced_size = 4, body_sent = [] \<rparr>)))
   \<and> final_read_rc_m (snd (snd (CurlStream_read (opened (curl_transfer 1
           \<lparr> status_code = 200, announced_size = 4, body_sent = [] \<rparr>)) 10))) = - 1
   \<and> CurlStream_read (snd (snd (CurlStream_read (opened (curl_transfer 1
           \<lparr> status_code = 200, announced_size = 4, body_sent = [] \<rparr>)) 10))) 7
     = (Returned (- 1), [],
        snd (snd (CurlStream_read (opened (curl_transfer 1
           \<lparr> status_code = 200, announced_size = 4, body_sent = [] \<rparr>)) 10)))"
proof -
  let ?st = "opened (curl_transfer 1 \<lparr> status_code = 200, announced_size = 4, body_sent = [] \<rparr>)"
  let ?rd = "CurlStream_read ?st 10"
  have a: "fst ?rd = Returned (- 1)" by code_simp
  have b: "fst (snd ?rd) = []" by code_simp
  have h: "?rd = (Returned (- 1), [], snd (snd ?rd))" by (metis a b prod.collapse)
  have f: "[] \<notin> set (buf_m ?st)" by code_simp
  have l: "final_read_rc_m (snd (snd ?rd)) = - 1" by code_simp
  have c: "(- 1 :: int) = 0 \<and> (0 :: nat) < 10 \<or> (- 1 :: int) = - 2
           \<or> (- 1 :: int) \<le> 0 \<and> final_read_rc_m (snd (snd ?rd)) = - 1"
    using l by simp
  from CurlStream_read_latched [OF h f c, of 7] h f l show ?thesis by simp
qed

text \<open>
  The claim as first stated fails for a negative value that is not the transfer's final
  status: the \<^verbatim>\<open>select\<close> wait fails, \<^verbatim>\<open>read\<close> returns -1 without recording it, and the
  next \<^verbatim>\<open>read\<close> drives the transport again and returns a byte.
\<close>

theorem read_not_latched_counterexample:
  "(case CurlStream_read (opened flaky_session) 10 of
      (r1, bytes1, st1) \<Rightarrow>
        (case CurlStream_read st1 10 of
           (r2, bytes2, st2) \<Rightarrow>
             r1 = Returned (- 1) \<and> bytes1 = [] \<and> r2 = Returned 1 \<and> bytes2 = [7]
             \<and> r2 \<noteq> r1 \<and> st2 \<noteq> st1
             \<and> length (curl_script st1) = 1 \<and> length (curl_script st2) = 0))"
  by code_simp

section \<open>A response cut short: what the reader does\<close>

lemma concat_fifo_write: "concat (fifo_write q x) = concat q @ x"
  by (simp add: fifo_write_def)

lemma concat_foldl_fifo_write: "concat (foldl fifo_write q xs) = concat q @ concat xs"
  by (induction xs arbitrary: q) (simp_all add: concat_fifo_write)

lemma perform_carrying:
  assumes "carrying st P e"
  shows "\<exists>st'. perform st = (Returned 0, st') \<and> carrying st' P e
           \<and> (response_code_m st \<noteq> 0 \<longrightarrow> response_code_m st' = response_code_m st)"
proof (cases "final_msg_m st")
  case (Some a)
  with assms show ?thesis by (simp add: perform_def)
next
  case None
  with assms obtain p ps where sc: "curl_script st = p # ps"
    by (cases "curl_script st") (auto simp: carrying_def)
  from assms None sc have hp: "healthy p"
    and P: "P = concat (buf_m st) @ concat (written p) @ body_of ps"
    and fin: "ps = [] \<Longrightarrow> still_running p = 0 \<and> read_msgs (info_msgs p) None = Some e"
    and run: "ps \<noteq> [] \<Longrightarrow> still_running p \<noteq> 0 \<and> transfer_ends ps e"
    and rest: "h_m st" "0 < final_read_rc_m st" "[] \<notin> set (buf_m st)"
    by (auto simp: carrying_def body_of_def split: if_splits)
  show ?thesis
  proof (cases "ps = []")
    case True
    with fin hp None sc P rest show ?thesis
      by (auto simp: perform_def Let_def healthy_def carrying_def body_of_def
          concat_foldl_fifo_write foldl_fifo_write_ok)
  next
    case False
    with run hp None sc P rest show ?thesis
      by (auto simp: perform_def Let_def healthy_def carrying_def body_of_def
          concat_foldl_fifo_write foldl_fifo_write_ok)
  qed
qed

lemma block_carrying:
  "carrying st P e \<Longrightarrow> final_msg_m st = None \<Longrightarrow> block st = Returned 0"
  by (cases "curl_script st") (auto simp: carrying_def block_def healthy_def)

lemma read_wait_carrying:
  assumes "carrying st P e"
  shows "\<exists>st'. read_wait st = (Returned 0, st') \<and> carrying st' P e
           \<and> (final_msg_m st' \<noteq> None \<or> buf_m st' \<noteq> [])
           \<and> (response_code_m st \<noteq> 0 \<longrightarrow> response_code_m st' = response_code_m st)"
  using assms
proof (induction st rule: read_wait.induct)
  case (1 st)
  show ?case
  proof (cases "final_msg_m st = None \<and> buf_m st = []")
    case False
    from read_wait_stop [OF False] "1.prems" False show ?thesis by auto
  next
    case True
    then have fm: "final_msg_m st = None" and em: "buf_m st = []" by simp_all
    have blk: "block st = Returned 0" using block_carrying [OF "1.prems" fm] .
    from perform_carrying [OF "1.prems"] obtain st1 where
      p: "perform st = (Returned 0, st1)" and c1: "carrying st1 P e"
      and rc: "response_code_m st \<noteq> 0 \<longrightarrow> response_code_m st1 = response_code_m st"
      by auto
    have unf: "read_wait st = read_wait st1"
      using read_wait_step [OF fm em] blk p by simp
    have "\<not> (0::int) \<noteq> 0" by simp
    from "1.IH" [OF True blk this p [symmetric] refl this c1] rc unf
    show ?thesis by auto
  qed
qed

lemma readsome_prefix:
  assumes "q \<noteq> []" and "[] \<notin> set q" and "0 < n"
  shows "\<exists>k q'. readsome q n = (k, take k (concat q), q') \<and> 0 < k \<and> k \<le> n
           \<and> concat q' = drop k (concat q) \<and> [] \<notin> set q'"
proof -
  from assms(1) obtain front rest where q: "q = front # rest" by (cases q) auto
  with assms(2) have ne: "front \<noteq> []" and r: "[] \<notin> set rest" by auto
  let ?k = "min (length front) n"
  have k: "0 < ?k" "?k \<le> n" "?k \<le> length front" using ne assms(3) by auto
  show ?thesis
    using q ne r k
    by (auto simp: readsome_def Let_def min_def)
qed

lemma read_some_carrying:
  assumes c: "carrying st P e" and ne: "buf_m st \<noteq> []" and n: "0 < n"
  shows "\<exists>k st'. read_some st n = (Returned (int k), take k P, st') \<and> 0 < k \<and> k \<le> n
           \<and> carrying st' (drop k P) e \<and> response_code_m st' = response_code_m st"
proof -
  from c have fifo: "[] \<notin> set (buf_m st)" by (simp add: carrying_def)
  from readsome_prefix [OF ne fifo n] obtain k q' where
    rs: "readsome (buf_m st) n = (k, take k (concat (buf_m st)), q')"
    and k: "0 < k" "k \<le> n" and q': "concat q' = drop k (concat (buf_m st))" "[] \<notin> set q'"
    by blast
  from ne fifo have "k \<le> length (concat (buf_m st))"
  proof -
    from ne obtain front rest where q: "buf_m st = front # rest" by (cases "buf_m st") auto
    with rs n have "k = min (length front) n" by (auto simp: readsome_def Let_def)
    with q show ?thesis by simp
  qed
  then have tk: "take k P = take k (concat (buf_m st))" and dk: "drop k P = drop k (concat (buf_m st)) @ drop (length (concat (buf_m st))) P"
    using c by (auto simp: carrying_def split: option.splits)
  have "read_some st n = (Returned (int k), take k P, st\<lparr> buf_m := q' \<rparr>)"
    using rs tk by (simp add: read_some_def)
  moreover have "carrying (st\<lparr> buf_m := q' \<rparr>) (drop k P) e"
    using c q' \<open>k \<le> length (concat (buf_m st))\<close>
    by (auto simp: carrying_def split: option.splits)
  ultimately show ?thesis using k by auto
qed

lemma carrying_empty:
  "carrying st P e \<Longrightarrow> final_msg_m st \<noteq> None \<Longrightarrow> buf_m st = [] \<Longrightarrow> P = [] \<and> final_msg_m st = Some e"
  by (auto simp: carrying_def split: option.splits)

lemma carrying_nonempty:
  "carrying st P e \<Longrightarrow> buf_m st \<noteq> [] \<Longrightarrow> P \<noteq> []"
  by (cases "buf_m st") (auto simp: carrying_def split: option.splits)

lemma CurlStream_read_carrying:
  assumes c: "carrying st P e" and code: "200 \<le> response_code_m st" "response_code_m st \<le> 299"
    and n: "0 < n"
  shows "if P = [] then
           (\<exists>st'. CurlStream_read st n = (Returned (if e = CURLE_OK then 0 else - 1), [], st'))
         else
           (\<exists>k st'. CurlStream_read st n = (Returned (int k), take k P, st') \<and> 0 < k \<and> k \<le> n
              \<and> carrying st' (drop k P) e \<and> response_code_m st' = response_code_m st)"
proof -
  from c have live: "\<not> final_read_rc_m st \<le> 0" "h_m st" by (simp_all add: carrying_def)
  show ?thesis
  proof (cases "buf_m st = []")
    case False
    from read_some_carrying [OF c False n] carrying_nonempty [OF c False] live code False
    show ?thesis by (simp add: CurlStream_read_def)
  next
    case True
    from perform_carrying [OF c] obtain st1 where
      p: "perform st = (Returned 0, st1)" and c1: "carrying st1 P e"
      and rc1: "response_code_m st1 = response_code_m st"
      using code by auto
    from read_wait_carrying [OF c1] obtain st2 where
      rw: "read_wait st1 = (Returned 0, st2)" and c2: "carrying st2 P e"
      and ex: "final_msg_m st2 \<noteq> None \<or> buf_m st2 \<noteq> []"
      and rc2: "response_code_m st2 = response_code_m st"
      using code rc1 by auto
    show ?thesis
    proof (cases "buf_m st2 = []")
      case False
      from read_some_carrying [OF c2 False n] carrying_nonempty [OF c2 False] live code True p rw False rc2
      show ?thesis by (simp add: CurlStream_read_def)
    next
      case e2: True
      with ex have "final_msg_m st2 \<noteq> None" by simp
      from carrying_empty [OF c2 this e2] have "P = []" "final_msg_m st2 = Some e" by simp_all
      with live code True p rw e2 show ?thesis
        by (simp add: CurlStream_read_def final_status_def)
    qed
  qed
qed

lemma int_of_ssize_small: "- (2 ^ 31) \<le> x \<Longrightarrow> x < 2 ^ 31 \<Longrightarrow> int_of_ssize x = x"
  by (simp add: int_of_ssize_def)

lemma read_calls_carrying:
  assumes "stm s = Some st" and "carrying st P e"
    and "200 \<le> response_code_m st" "response_code_m st \<le> 299"
    and "\<forall>n\<in>set ns. 0 < n \<and> n < 2 ^ 31" and "length P < length ns"
  shows "\<exists>s' w'. read_calls w s ns
             = (Some (Returned (if e = CURLE_OK then 0 else - 1)), P, s', w')
           \<and> requests w' = requests w \<and> (e \<noteq> CURLE_OK \<longrightarrow> errno w' = EIO)"
  using assms
proof (induction ns arbitrary: s st P w)
  case Nil
  then show ?case by simp
next
  case (Cons n ns)
  from Cons.prems(5) have n: "0 < n" "n < 2 ^ 31" by simp_all
  note step = CurlStream_read_carrying [OF Cons.prems(2,3,4) n(1)]
  show ?case
  proof (cases "P = []")
    case True
    with step obtain st' where
      rd: "CurlStream_read st n = (Returned (if e = CURLE_OK then 0 else - 1), [], st')"
      by auto
    have "int_of_ssize (if e = CURLE_OK then 0 else - 1) = (if e = CURLE_OK then 0 else - 1)"
      by (simp add: int_of_ssize_def)
    with rd Cons.prems(1) True show ?thesis
      by (auto simp: curlstream_read_def read_stm_def Let_def)
  next
    case False
    with step obtain k st' where
      rd: "CurlStream_read st n = (Returned (int k), take k P, st')"
      and k: "0 < k" "k \<le> n" and c': "carrying st' (drop k P) e"
      and rc: "response_code_m st' = response_code_m st"
      by auto
    from k n have "int k < 2 ^ 31"
      by (metis le_less_trans of_nat_less_numeral_power_cancel_iff)
    then have ik: "int_of_ssize (int k) = int k" by (simp add: int_of_ssize_small)
    let ?s1 = "s\<lparr> stm := Some st' \<rparr>" and ?w1 = "w\<lparr> errno := EIO \<rparr>"
    from rd Cons.prems(1) ik k
    have cr: "curlstream_read w s n = (Returned (int k), take k P, ?s1, ?w1)"
      by (simp add: curlstream_read_def read_stm_def Let_def)
    have len: "length (drop k P) < length ns"
      using Cons.prems(6) k False by (cases P) auto
    have "stm ?s1 = Some st'" by simp
    from Cons.IH [OF this c' _ _ _ len, of ?w1] Cons.prems(3,4,5) rc
    obtain s' w' where
      rec: "read_calls ?w1 ?s1 ns
              = (Some (Returned (if e = CURLE_OK then 0 else - 1)), drop k P, s', w')"
      and fr: "requests w' = requests ?w1" "e \<noteq> CURLE_OK \<longrightarrow> errno w' = EIO"
      by auto
    from cr rec k have "read_calls w s (n # ns)
        = (Some (Returned (if e = CURLE_OK then 0 else - 1)), take k P @ drop k P, s', w')"
      by simp
    with fr show ?thesis by simp
  qed
qed

lemma CurlStream_open_carrying:
  assumes op: "CurlStream_open (CurlStream_new sess) off = (Returned 0, st)"
    and te: "transfer_ends (sess_script sess) e"
  shows "carrying st (body_of (sess_script sess)) e
       \<and> 200 \<le> response_code_m st \<and> response_code_m st \<le> 299"
proof -
  let ?D = "body_of (sess_script sess)"
  let ?new = "CurlStream_new sess"
  let ?st0 = "?new\<lparr> m_m := True, h_m := True \<rparr>"
  have new: "\<not> m_m ?new" "\<not> h_m ?new" by (simp_all add: CurlStream_new_def)
  have ok: "curl_setup ?new = SetupOk"
    using op new by (cases "curl_setup ?new") (auto simp: CurlStream_open_def)
  have c0: "carrying ?st0 ?D e"
    using te by (simp add: carrying_def CurlStream_new_def)
  from perform_carrying [OF c0] obtain st1 where
    p: "perform ?st0 = (Returned 0, st1)" and c1: "carrying st1 ?D e" by auto
  obtain y st2 where ow: "open_wait st1 = (y, st2)" by (cases "open_wait st1") auto
  have pres: "\<And>st x st'. carrying st ?D e \<Longrightarrow> perform st = (x, st') \<Longrightarrow> carrying st' ?D e"
    using perform_carrying by fastforce
  from open_wait_rule [OF ow, of "\<lambda>s. carrying s ?D e", OF c1 pres]
  have c2: "carrying st2 ?D e" by simp
  from op new ok p ow have y: "y = Returned 0" and oc: "open_checks st2 off = (Returned 0, st)"
    by (auto simp: CurlStream_open_def split: outcome.splits if_splits)
  from oc have "st = st2" by (auto simp: open_checks_def split: if_splits)
  with c2 open_checks_cases [OF oc] show ?thesis by simp
qed

section \<open>Reading a response to its end\<close>

lemma open_helper_carrying:
  assumes oh: "open_helper w s0 = (Returned 0, s, w1)"
    and te: "transfer_ends (sess_script (network w (requests w) (request_of (url s0) (ofs s0)))) e"
  shows "\<exists>st. stm s = Some st
           \<and> carrying st (body_of (sess_script (network w (requests w)
                                       (request_of (url s0) (ofs s0))))) e
           \<and> 200 \<le> response_code_m st \<and> response_code_m st \<le> 299
           \<and> requests w1 = requests w @ [request_of (url s0) (ofs s0)]"
proof -
  let ?sess = "network w (requests w) (request_of (url s0) (ofs s0))"
  obtain x st where x: "CurlStream_open (CurlStream_new ?sess) (ofs s0) = (x, st)"
    by (cases "CurlStream_open (CurlStream_new ?sess) (ofs s0)") auto
  from oh x have x0: "x = Returned 0" and s: "stm s = Some st"
    by (auto simp: open_helper_def Let_def split: outcome.splits if_splits)
  from CurlStream_open_carrying [OF x [unfolded x0] te] open_helper_requests [OF oh] s
  show ?thesis by simp
qed

lemma curlstream_open_helper:
  "curlstream_open w u k = (Returned 0, Some s, w1) \<longleftrightarrow>
   open_helper w \<lparr> url = u, ofs = k, stm = None \<rparr> = (Returned 0, s, w1)"
  by (auto simp: curlstream_open_def split: prod.splits outcome.splits if_splits)

lemma read_calls_lazy:
  assumes "stm s0 = None" and oh: "open_helper w s0 = (Returned 0, s, w1)" and "ns \<noteq> []"
  shows "read_calls w s0 ns = read_calls w1 s ns"
proof -
  from open_helper_ok [OF oh] obtain st where st: "stm s = Some st" by simp
  obtain n rest where ns: "ns = n # rest" using assms(3) by (cases ns) auto
  have "curlstream_read w s0 n = curlstream_read w1 s n"
    using assms(1) oh st by (simp add: curlstream_read_def)
  then show ?thesis by (simp add: ns)
qed

text \<open>How the reads on a box without a session end, whatever the end of the transfer.\<close>

lemma read_calls_opens:
  assumes s0: "stm s0 = None"
    and ok: "fst (curlstream_open w (url s0) (ofs s0)) = Returned 0"
    and te: "transfer_ends (sess_script (network w (requests w) (request_of (url s0) (ofs s0)))) e"
    and D: "D = body_of (sess_script (network w (requests w) (request_of (url s0) (ofs s0))))"
    and ns: "\<forall>n\<in>set ns. 0 < n \<and> n < 2 ^ 31" and len: "length D < length ns"
  shows "\<exists>s' w'. read_calls w s0 ns = (Some (Returned (if e = CURLE_OK then 0 else - 1)), D, s', w')
           \<and> (e \<noteq> CURLE_OK \<longrightarrow> errno w' = EIO)
           \<and> requests w' = requests w @ [request_of (url s0) (ofs s0)]
           \<and> (\<exists>s w1. curlstream_open w (url s0) (ofs s0) = (Returned 0, Some s, w1)
                 \<and> read_calls w1 s ns
                     = (Some (Returned (if e = CURLE_OK then 0 else - 1)), D, s', w'))"
proof -
  have box: "s0 = \<lparr> url = url s0, ofs = ofs s0, stm = None \<rparr>" using s0 by simp
  obtain r bo w1 where co: "curlstream_open w (url s0) (ofs s0) = (r, bo, w1)"
    by (cases "curlstream_open w (url s0) (ofs s0)") auto
  with ok have r: "r = Returned 0" by simp
  with co obtain s where bo: "bo = Some s"
    by (auto simp: curlstream_open_def split: prod.splits outcome.splits if_splits)
  from co r bo have co': "curlstream_open w (url s0) (ofs s0) = (Returned 0, Some s, w1)" by simp
  then have oh: "open_helper w s0 = (Returned 0, s, w1)"
    using box by (simp add: curlstream_open_helper)
  from open_helper_carrying [OF oh te] D obtain st where
    st: "stm s = Some st" and c: "carrying st D e"
    and rc: "200 \<le> response_code_m st" "response_code_m st \<le> 299"
    and rq: "requests w1 = requests w @ [request_of (url s0) (ofs s0)]" by auto
  from read_calls_carrying [OF st c rc ns len, of w1] obtain s' w' where
    rd: "read_calls w1 s ns = (Some (Returned (if e = CURLE_OK then 0 else - 1)), D, s', w')"
    and rq': "requests w' = requests w1" and er: "e \<noteq> CURLE_OK \<longrightarrow> errno w' = EIO"
    by blast
  from len have "ns \<noteq> []" by auto
  from read_calls_lazy [OF s0 oh this] rd
  have "read_calls w s0 ns = (Some (Returned (if e = CURLE_OK then 0 else - 1)), D, s', w')"
    by simp
  with rd rq rq' er co' show ?thesis by auto
qed

text \<open>
  C1 (amended). Take a box without a session, as \<^verbatim>\<open>curlstream_open\<close> makes it for any
  offset and as a seek leaves it, and let the response to its request be cut short: the
  open succeeds, and the transfer delivers the bytes \<open>D\<close> and then ends with a transport
  error \<open>e\<close> (the partial-response error). A caller that reads until a call returns no
  positive count, with read sizes between 1 and \<open>2^31 - 1\<close> and as many calls as it takes,
  receives exactly \<open>D\<close> and then the value -1 with \<^verbatim>\<open>errno = EIO\<close>, whether the session
  was opened by the first read or by \<^verbatim>\<open>curlstream_open\<close> before. The only request issued is
  the one that opened the session: the backend does not open a new session to resume.
\<close>

theorem truncated_read_surfaces_error:
  assumes s0: "stm s0 = None"
    and ok: "fst (curlstream_open w (url s0) (ofs s0)) = Returned 0"
    and te: "transfer_ends (sess_script (network w (requests w) (request_of (url s0) (ofs s0)))) e"
    and err: "e \<noteq> CURLE_OK"
    and D: "D = body_of (sess_script (network w (requests w) (request_of (url s0) (ofs s0))))"
    and ns: "\<forall>n\<in>set ns. 0 < n \<and> n < 2 ^ 31" and len: "length D < length ns"
  shows "\<exists>s' w'. read_calls w s0 ns = (Some (Returned (- 1)), D, s', w')
           \<and> errno w' = EIO
           \<and> requests w' = requests w @ [request_of (url s0) (ofs s0)]
           \<and> (\<exists>s w1. curlstream_open w (url s0) (ofs s0) = (Returned 0, Some s, w1)
                 \<and> read_calls w1 s ns = (Some (Returned (- 1)), D, s', w'))"
  using read_calls_opens [OF s0 ok te D ns len] err by simp

theorem truncated_read_surfaces_error_witness:
  "stm \<lparr> url = test_url, ofs = 1, stm = None \<rparr> = None
   \<and> fst (curlstream_open (test_world 2) test_url 1) = Returned 0
   \<and> transfer_ends
        (sess_script (network (test_world 2) (requests (test_world 2)) (test_url, Some 1)))
        CURLE_PARTIAL_FILE
   \<and> CURLE_PARTIAL_FILE \<noteq> CURLE_OK
   \<and> body_of (sess_script (network (test_world 2) (requests (test_world 2)) (test_url, Some 1)))
     = [2, 3]
   \<and> (\<exists>s' w'. read_calls (test_world 2) \<lparr> url = test_url, ofs = 1, stm = None \<rparr> [10, 10, 10]
                 = (Some (Returned (- 1)), [2, 3], s', w')
          \<and> errno w' = EIO \<and> requests w' = [(test_url, Some 1)]
          \<and> (\<exists>s w1. curlstream_open (test_world 2) test_url 1 = (Returned 0, Some s, w1)
                \<and> read_calls w1 s [10, 10, 10] = (Some (Returned (- 1)), [2, 3], s', w')))
   \<and> fst (curlstream_open (test_world 2) test_url 0) = Returned 0
   \<and> (\<exists>s' w'. read_calls (test_world 2) \<lparr> url = test_url, ofs = 0, stm = None \<rparr> [10, 10, 10]
                 = (Some (Returned (- 1)), [1, 2], s', w')
          \<and> errno w' = EIO \<and> requests w' = [(test_url, None)])"
proof -
  let ?w = "test_world 2"
  let ?b1 = "\<lparr> url = test_url, ofs = 1, stm = None \<rparr>"
  let ?b0 = "\<lparr> url = test_url, ofs = 0, stm = None \<rparr>"
  let ?sc1 = "sess_script (network ?w (requests ?w) (test_url, Some 1))"
  let ?sc0 = "sess_script (network ?w (requests ?w) (test_url, None))"
  have q1: "request_of (url ?b1) (ofs ?b1) = (test_url, Some 1)"
    and q0: "request_of (url ?b0) (ofs ?b0) = (test_url, None)"
    by (simp_all add: request_of_def)
  have rq: "requests ?w = []" by (simp add: test_world_def)
  have r1: "fst (curlstream_open ?w test_url 1) = Returned 0" by code_simp
  have r0: "fst (curlstream_open ?w test_url 0) = Returned 0" by code_simp
  have te1: "transfer_ends ?sc1 CURLE_PARTIAL_FILE" by code_simp
  have te0: "transfer_ends ?sc0 CURLE_PARTIAL_FILE" by code_simp
  have err: "CURLE_PARTIAL_FILE \<noteq> CURLE_OK" by code_simp
  have D1: "[2, 3] = body_of ?sc1" by code_simp
  have D0: "[1, 2] = body_of ?sc0" by code_simp
  have ns: "\<forall>n\<in>set [10, 10, 10 :: nat]. 0 < n \<and> n < 2 ^ 31" by simp
  have len: "length [2, 3 :: byte] < length [10, 10, 10 :: nat]"
    "length [1, 2 :: byte] < length [10, 10, 10 :: nat]" by simp_all
  have a: "\<exists>s' w'. read_calls ?w ?b1 [10, 10, 10] = (Some (Returned (- 1)), [2, 3], s', w')
          \<and> errno w' = EIO \<and> requests w' = [(test_url, Some 1)]
          \<and> (\<exists>s w1. curlstream_open ?w test_url 1 = (Returned 0, Some s, w1)
                \<and> read_calls w1 s [10, 10, 10] = (Some (Returned (- 1)), [2, 3], s', w'))"
    using truncated_read_surfaces_error [of ?b1 ?w CURLE_PARTIAL_FILE "[2, 3]" "[10, 10, 10]"]
      r1 te1 err D1 ns len(1) unfolding q1 rq by simp
  have b: "\<exists>s' w'. read_calls ?w ?b0 [10, 10, 10] = (Some (Returned (- 1)), [1, 2], s', w')
          \<and> errno w' = EIO \<and> requests w' = [(test_url, None)]"
    using truncated_read_surfaces_error [of ?b0 ?w CURLE_PARTIAL_FILE "[1, 2]" "[10, 10, 10]"]
      r0 te0 err D0 ns len(2) unfolding q0 rq by auto
  from a b r1 r0 te1 err D1 show ?thesis by simp
qed

text \<open>
  The claim as first stated fails: the mock server holds 4 bytes and cuts the first
  response after 2; the caller receives the bytes 1 and 2 and then -1, and no request
  with \<^verbatim>\<open>range: bytes=2-\<close> is made.
\<close>

theorem no_resume_counterexample:
  "files_m (test_httpd 2) test_url = Some [1, 2, 3, 4]
   \<and> truncate_response_m (test_httpd 2) = 2
   \<and> (case read_calls (snd (test_open 2)) (fst (test_open 2)) [10, 10, 10, 10, 10] of
        (r, bytes, s', w') \<Rightarrow>
          r = Some (Returned (- 1)) \<and> bytes = [1, 2] \<and> bytes \<noteq> [1, 2, 3, 4]
          \<and> errno w' = EIO \<and> requests w' = [(test_url, None)]
          \<and> (test_url, Some 2) \<notin> set (requests w'))"
  by code_simp

text \<open>
  X1. The same caller on a response that arrives whole: when the transfer delivers the bytes
  \<open>D\<close> and ends without an error, it receives exactly \<open>D\<close> and then 0, the end of the
  stream, and the only request issued is the one that opened the session.
\<close>

theorem complete_read_delivers_body:
  assumes s0: "stm s0 = None"
    and ok: "fst (curlstream_open w (url s0) (ofs s0)) = Returned 0"
    and te: "transfer_ends (sess_script (network w (requests w) (request_of (url s0) (ofs s0))))
               CURLE_OK"
    and D: "D = body_of (sess_script (network w (requests w) (request_of (url s0) (ofs s0))))"
    and ns: "\<forall>n\<in>set ns. 0 < n \<and> n < 2 ^ 31" and len: "length D < length ns"
  shows "\<exists>s' w'. read_calls w s0 ns = (Some (Returned 0), D, s', w')
           \<and> requests w' = requests w @ [request_of (url s0) (ofs s0)]
           \<and> (\<exists>s w1. curlstream_open w (url s0) (ofs s0) = (Returned 0, Some s, w1)
                 \<and> read_calls w1 s ns = (Some (Returned 0), D, s', w'))"
  using read_calls_opens [OF s0 ok te D ns len] by simp

theorem complete_read_delivers_body_witness:
  "stm \<lparr> url = test_url, ofs = 0, stm = None \<rparr> = None
   \<and> fst (curlstream_open (test_world (- 1)) test_url 0) = Returned 0
   \<and> transfer_ends
        (sess_script (network (test_world (- 1)) (requests (test_world (- 1))) (test_url, None)))
        CURLE_OK
   \<and> body_of
        (sess_script (network (test_world (- 1)) (requests (test_world (- 1))) (test_url, None)))
     = [1, 2, 3, 4]
   \<and> (\<exists>s' w'. read_calls (test_world (- 1)) \<lparr> url = test_url, ofs = 0, stm = None \<rparr>
                   [3, 3, 3, 3, 3]
                 = (Some (Returned 0), [1, 2, 3, 4], s', w')
          \<and> requests w' = [(test_url, None)]
          \<and> (\<exists>s w1. curlstream_open (test_world (- 1)) test_url 0 = (Returned 0, Some s, w1)
                \<and> read_calls w1 s [3, 3, 3, 3, 3] = (Some (Returned 0), [1, 2, 3, 4], s', w')))"
proof -
  let ?w = "test_world (- 1)"
  let ?b0 = "\<lparr> url = test_url, ofs = 0, stm = None \<rparr>"
  let ?sc0 = "sess_script (network ?w (requests ?w) (test_url, None))"
  have q0: "request_of (url ?b0) (ofs ?b0) = (test_url, None)"
    by (simp_all add: request_of_def)
  have rq: "requests ?w = []" by (simp add: test_world_def)
  have r0: "fst (curlstream_open ?w test_url 0) = Returned 0" by code_simp
  have te0: "transfer_ends ?sc0 CURLE_OK" by code_simp
  have D0: "[1, 2, 3, 4] = body_of ?sc0" by code_simp
  have ns: "\<forall>n\<in>set [3, 3, 3, 3, 3 :: nat]. 0 < n \<and> n < 2 ^ 31" by simp
  have len: "length [1, 2, 3, 4 :: byte] < length [3, 3, 3, 3, 3 :: nat]" by simp
  have b: "\<exists>s' w'. read_calls ?w ?b0 [3, 3, 3, 3, 3] = (Some (Returned 0), [1, 2, 3, 4], s', w')
          \<and> requests w' = [(test_url, None)]
          \<and> (\<exists>s w1. curlstream_open ?w test_url 0 = (Returned 0, Some s, w1)
                \<and> read_calls w1 s [3, 3, 3, 3, 3] = (Some (Returned 0), [1, 2, 3, 4], s', w'))"
    using complete_read_delivers_body [of ?b0 ?w "[1, 2, 3, 4]" "[3, 3, 3, 3, 3]"]
      r0 te0 D0 ns len unfolding q0 rq by simp
  from b r0 te0 D0 show ?thesis by simp
qed

section \<open>Seeking an HTTP stream\<close>




section \<open>What an HTTP stream can do\<close>

lemma flush_buffer_empty:
  "hend f \<le> hbegin f \<Longrightarrow> flush_buffer f = Returned (0, f\<lparr> hbegin := 0, hend := 0 \<rparr>)"
  by (subst flush_buffer.simps) simp

lemma flush_buffer_no_write:
  "hbegin f < hend f \<Longrightarrow> be_write (backend f) = None \<Longrightarrow>
   flush_buffer f = Returned (- 1, f\<lparr> err := ENOTSUP \<rparr>)"
  by (subst flush_buffer.simps) simp

text \<open>
  C10. The capability record of the HTTP backend has null \<open>write\<close> and \<open>flush\<close> entries, and
  \<^verbatim>\<open>net_close\<close> returns 0 whatever the state of the reader and of the network. Hence, on any
  stream with this backend: \<^verbatim>\<open>hwrite\<close> returns -1 and \<^verbatim>\<open>hflush\<close> returns \<^verbatim>\<open>EOF\<close>, on a healthy
  stream with the sticky error set to \<^verbatim>\<open>ENOTSUP\<close> (unsupported) and nothing else changed, on an
  errored stream with no effect; \<^verbatim>\<open>hclose\<close> always returns, and it returns \<^verbatim>\<open>EOF\<close> exactly
  when the flush of the buffered layer failed, the close of the transport adding no failure: it
  returns 0 for every stream in read mode and every stream with nothing pending.
\<close>

theorem net_backend_capabilities:
  assumes "backend f = net_backend"
  shows "be_write net_backend = None \<and> be_flush net_backend = None
       \<and> (\<exists>fp'. net_close fp = Returned (0, fp'))
       \<and> hwrite f data = Returned (- 1, if err f = 0 then f\<lparr> err := ENOTSUP \<rparr> else f)
       \<and> hflush f = Returned (EOF, if err f = 0 then f\<lparr> err := ENOTSUP \<rparr> else f)
       \<and> (\<exists>fr f1 st'. close_flush f = Returned (fr, f1)
             \<and> hclose f = Returned (if fr < 0 then EOF else 0, st'))
       \<and> (mode f = ReadMode \<or> hend f \<le> hbegin f \<longrightarrow> (\<exists>st'. hclose f = Returned (0, st')))"
proof -
  have caps: "be_write net_backend = None" "be_flush net_backend = None"
    by (simp_all add: net_backend_def)
  have cl: "be_close net_backend = net_close" by (simp add: net_backend_def)
  have nc: "\<exists>fp'. net_close fp = Returned (0, fp')" by (simp add: net_close_def)
  have w: "hwrite f data = Returned (- 1, if err f = 0 then f\<lparr> err := ENOTSUP \<rparr> else f)"
    using assms caps by (simp add: hwrite_def)
  have fl: "hflush f = Returned (EOF, if err f = 0 then f\<lparr> err := ENOTSUP \<rparr> else f)"
    using assms caps by (simp add: hflush_def)
  have cf: "\<exists>fr f1. close_flush f = Returned (fr, f1) \<and> backend f1 = net_backend
              \<and> (mode f = ReadMode \<or> hend f \<le> hbegin f \<longrightarrow> fr = 0)"
  proof (cases "mode f = WriteMode")
    case False
    then show ?thesis using assms by (cases "mode f") (auto simp: close_flush_def)
  next
    case True
    show ?thesis
    proof (cases "hend f \<le> hbegin f")
      case True
      with \<open>mode f = WriteMode\<close> assms flush_buffer_empty [OF True] show ?thesis
        by (simp add: close_flush_def)
    next
      case False
      then have "hbegin f < hend f" by simp
      from flush_buffer_no_write [OF this] assms caps \<open>mode f = WriteMode\<close> False
      show ?thesis by (simp add: close_flush_def)
    qed
  qed
  then obtain fr f1 where c1: "close_flush f = Returned (fr, f1)" and b1: "backend f1 = net_backend"
    and z: "mode f = ReadMode \<or> hend f \<le> hbegin f \<longrightarrow> fr = 0"
    by blast
  have hc: "hclose f = Returned (if fr < 0 then EOF else 0, (curlstream_close (fst (bstate f1)), snd (bstate f1)))"
    using c1 b1 cl by (simp add: hclose_def net_close_def)
  from caps nc w fl c1 hc z show ?thesis by auto
qed

theorem net_backend_capabilities_witness:
  "backend test_hfile = net_backend \<and> err test_hfile = 0 \<and> mode test_hfile = ReadMode
   \<and> be_write (backend test_hfile) = None \<and> be_flush (backend test_hfile) = None
   \<and> hwrite test_hfile [1] = Returned (- 1, test_hfile\<lparr> err := ENOTSUP \<rparr>)
   \<and> hflush test_hfile = Returned (EOF, test_hfile\<lparr> err := ENOTSUP \<rparr>)
   \<and> (\<exists>st'. hclose test_hfile = Returned (0, st'))"
proof -
  have b: "backend test_hfile = net_backend" by (simp add: test_hfile_def hfile_init_def)
  have e: "err test_hfile = 0" "mode test_hfile = ReadMode"
    by (simp_all add: test_hfile_def hfile_init_def)
  from net_backend_capabilities [OF b, of "bstate test_hfile" "[1]"] b e show ?thesis by simp
qed

section \<open>Peeking\<close>

lemma blit_keeps_front: "take pos (blit buf pos data) = take pos buf"
  by (simp add: blit_def min_def take_all_iff)

lemma length_blit [simp]: "length (blit buf pos data) = length buf"
  by (simp add: blit_def)

lemma window_prefix_grow:
  assumes "take e buf' = take e buf" and "e \<le> e'"
  shows "prefix (take (e - b) (drop b buf)) (take (e' - b) (drop b buf'))"
proof -
  have "take (e - b) (drop b buf) = drop b (take e buf)" by (simp add: drop_take)
  also have "\<dots> = drop b (take e buf')" using assms(1) by simp
  also have "\<dots> = take (e - b) (drop b buf')" by (simp add: drop_take)
  finally have "take (e - b) (drop b buf) = take (e - b) (drop b buf')" .
  moreover have "prefix (take (e - b) (drop b buf')) (take (e' - b) (drop b buf'))"
  proof -
    have "e - b \<le> e' - b" using assms(2) by simp
    then have "take (e - b) (drop b buf') = take (e - b) (take (e' - b) (drop b buf'))"
      by (simp add: min_absorb1)
    then show ?thesis by (metis take_is_prefix)
  qed
  ultimately show ?thesis by simp
qed

lemma fill_frame:
  assumes "fill f = Returned (r, f')"
  shows "offset f' = offset f" "mode f' = mode f" "hbegin f' = hbegin f"
    "capacity f' = capacity f" "backend f' = backend f"
    "prefix (window f) (window f')"
proof -
  show "offset f' = offset f" "mode f' = mode f" "hbegin f' = hbegin f" "capacity f' = capacity f"
    "backend f' = backend f"
    using assms
    by (auto simp: fill_def capacity_def split: option.splits outcome.splits if_splits)
  show "prefix (window f) (window f')"
  proof (cases "0 < r")
    case False
    with assms have "buffer f' = buffer f" "hbegin f' = hbegin f" "hend f' = hend f"
      by (auto simp: fill_def split: option.splits outcome.splits if_splits)
    then show ?thesis by (simp add: window_def)
  next
    case True
    with assms obtain data where
      b: "buffer f' = blit (buffer f) (hend f) data" and e: "hend f' = hend f + nat r"
      and bg: "hbegin f' = hbegin f"
      by (auto simp: fill_def split: option.splits outcome.splits if_splits)
    have "take (hend f) (buffer f') = take (hend f) (buffer f)"
      by (simp add: b blit_keeps_front)
    from window_prefix_grow [OF this, of "hend f'" "hbegin f"] e bg
    show ?thesis by (simp add: window_def)
  qed
qed

lemma peek_fill_frame:
  assumes "peek_fill f want = Returned (r, f')"
  shows "offset f' = offset f \<and> mode f' = mode f \<and> capacity f' = capacity f
       \<and> backend f' = backend f \<and> prefix (window f) (window f')"
  using assms
proof (induction f want rule: peek_fill.induct)
  case (1 f want)
  show ?case
  proof (cases "want \<le> hend f - hbegin f \<or> at_eof f")
    case True
    with "1.prems" show ?thesis by (subst (asm) peek_fill.simps) auto
  next
    case False
    show ?thesis
    proof (cases "fill f")
      case AssertFailed
      with "1.prems" False show ?thesis by (subst (asm) peek_fill.simps) auto
    next
      case Waiting
      with "1.prems" False show ?thesis by (subst (asm) peek_fill.simps) auto
    next
      case (Returned x)
      obtain r1 f1 where x: "x = (r1, f1)" by (cases x) auto
      note fl = Returned [unfolded x]
      note fr = fill_frame [OF fl]
      show ?thesis
      proof (cases "r1 \<le> 0")
        case True
        with "1.prems" False fl have "f' = f1"
          by (subst (asm) peek_fill.simps) (auto split: if_splits)
        with fr show ?thesis by simp
      next
        case pos: False
        with "1.prems" False fl have rec: "peek_fill f1 want = Returned (r, f')"
          by (subst (asm) peek_fill.simps) (auto split: if_splits)
        have a: "\<not> r1 < 0" "\<not> r1 = 0" using pos by simp_all
        from "1.IH" [OF False fl [unfolded x [symmetric]] x [symmetric] a rec] fr
        show ?thesis by (auto intro: prefix_order.trans)
      qed
    qed
  qed
qed

lemma window_slide: "prefix (window f) (window (slide f))"
proof -
  define W where "W = window f"
  define a where "a = hend f - hbegin f"
  define B where "B = blit (buffer f) 0 W"
  have l: "length W \<le> a" "length W \<le> length (buffer f)"
    by (simp_all add: W_def a_def window_def)
  have "take (length W) B = W" using l by (simp add: B_def blit_def)
  then have "take (length W) (take a B) = W" using l by (simp add: min_absorb1)
  then have "prefix W (take a B)" by (metis take_is_prefix)
  moreover have "window (slide f) = take a B"
    by (simp add: slide_def window_def a_def B_def W_def)
  ultimately show ?thesis by (simp add: W_def)
qed

lemma hpeek_frame:
  assumes "hpeek f n = Returned (k, bytes, f')"
  shows "offset f' = offset f" "mode f' = mode f" "capacity f' = capacity f"
    "mode f = WriteMode \<Longrightarrow> hbegin f' = hbegin f \<and> hend f' = hend f"
    "prefix (window f) (window f')" "prefix bytes (window f')"
    "k \<le> int n" "k \<le> int (capacity f)" "0 \<le> k \<Longrightarrow> length bytes \<le> nat k"
proof -
  have all: "offset f' = offset f \<and> mode f' = mode f \<and> capacity f' = capacity f
     \<and> (mode f = WriteMode \<longrightarrow> hbegin f' = hbegin f \<and> hend f' = hend f)
     \<and> prefix (window f) (window f') \<and> prefix bytes (window f')
     \<and> k \<le> int n \<and> k \<le> int (capacity f) \<and> (0 \<le> k \<longrightarrow> length bytes \<le> nat k)"
  proof (cases "err f \<noteq> 0 \<or> mode f \<noteq> ReadMode")
    case True
    with assms show ?thesis
      by (auto simp: hpeek_def window_def capacity_def split: if_splits)
  next
    case False
    then have rd: "mode f \<noteq> WriteMode" by (cases "mode f") auto
    let ?want = "min n (capacity f)"
    show ?thesis
    proof (cases "?want \<le> hend f - hbegin f")
      case True
      with assms False have "k = int ?want" "bytes = take ?want (window f)" "f' = f"
        by (auto simp: hpeek_def Let_def)
      with rd show ?thesis by (auto simp: take_is_prefix)
    next
      case nf: False
      show ?thesis
      proof (cases "peek_fill (slide f) ?want")
        case AssertFailed
        with assms False nf show ?thesis by (auto simp: hpeek_def Let_def)
      next
        case Waiting
        with assms False nf show ?thesis by (auto simp: hpeek_def Let_def)
      next
        case (Returned x)
        obtain r f2 where x: "x = (r, f2)" by (cases x) auto
        note pf = Returned [unfolded x]
        from peek_fill_frame [OF pf] window_slide [of f]
        have fr: "offset f2 = offset f" "mode f2 = mode f" "capacity f2 = capacity f"
          "prefix (window f) (window f2)"
          by (auto simp: slide_def capacity_def intro: prefix_order.trans)
        show ?thesis
        proof (cases "r < 0")
          case True
          with assms False nf pf have "k = - 1" "bytes = []" "f' = f2"
            by (auto simp: hpeek_def Let_def)
          with fr rd show ?thesis by auto
        next
          case r0: False
          let ?k = "min ?want (hend f2 - hbegin f2)"
          from assms False nf pf r0 have "k = int ?k" "bytes = take ?k (window f2)" "f' = f2"
            by (auto simp: hpeek_def Let_def)
          with fr rd show ?thesis by (auto simp: take_is_prefix)
        qed
      qed
    qed
  qed
  then show "offset f' = offset f" "mode f' = mode f" "capacity f' = capacity f"
    "mode f = WriteMode \<Longrightarrow> hbegin f' = hbegin f \<and> hend f' = hend f"
    "prefix (window f) (window f')" "prefix bytes (window f')"
    "k \<le> int n" "k \<le> int (capacity f)" "0 \<le> k \<Longrightarrow> length bytes \<le> nat k"
    by auto
qed

lemma window_consume:
  "window (f\<lparr> hbegin := hbegin f + k, offset := x \<rparr>) = drop k (window f)"
  by (simp add: window_def drop_take add.commute)

lemma hread_window:
  assumes "hread f n = Returned (r, bytes, f')" and "0 \<le> r"
  shows "(\<exists>j. bytes = take j (window f) \<and> window f' = drop j (window f))
       \<or> prefix (window f) bytes"
proof -
  from assms have ok: "err f = 0" "mode f = ReadMode"
    by (auto simp: hread_def split: if_splits)
  let ?k = "min n (hend f - hbegin f)"
  let ?f1 = "f\<lparr> hbegin := hbegin f + ?k, offset := offset f + int ?k \<rparr>"
  show ?thesis
  proof (cases "n - ?k = 0 \<or> at_eof ?f1")
    case True
    with assms(1) ok have "bytes = take ?k (window f)" "f' = ?f1"
      by (auto simp: hread_def Let_def)
    then show ?thesis using window_consume [where f = f and k = ?k] by auto
  next
    case False
    then have full: "?k = hend f - hbegin f" by auto
    have w: "take ?k (window f) = window f" unfolding full by (simp add: window_def)
    from assms False ok have "\<exists>later. bytes = take ?k (window f) @ later"
      by (auto simp: hread_def Let_def split: outcome.splits if_splits)
    with w show ?thesis by auto
  qed
qed

lemma hpeek_err_reads:
  "err f \<noteq> 0 \<Longrightarrow> reads_of f ops = []"
proof (induction ops arbitrary: f)
  case Nil
  then show ?case by simp
next
  case (Cons a ops)
  then show ?case by (cases a) (simp_all add: hpeek_def hread_def)
qed

lemma reads_of_prefix:
  "prefix T (window g) \<Longrightarrow>
   take (length T) (reads_of g ops) = take (length (reads_of g ops)) T"
proof (induction ops arbitrary: g T)
  case Nil
  then show ?case by simp
next
  case (Cons a ops)
  show ?case
  proof (cases a)
    case (Peek n)
    show ?thesis
    proof (cases "hpeek g n")
      case (Returned x)
      obtain r bytes g' where x: "x = (r, bytes, g')" by (cases x) auto
      from hpeek_frame(5) [OF Returned [unfolded x]] Cons.prems
      have "prefix T (window g')" by (auto intro: prefix_order.trans)
      from Cons.IH [OF this] Peek Returned x show ?thesis by simp
    qed (simp_all add: Peek)
  next
    case (Read n)
    show ?thesis
    proof (cases "hread g n")
      case (Returned x)
      obtain r bytes g' where x: "x = (r, bytes, g')" by (cases x) auto
      note hr = Returned [unfolded x]
      show ?thesis
      proof (cases "r < 0")
        case True
        with Read hr show ?thesis by simp
      next
        case False
        then have r0: "0 \<le> r" by simp
        let ?rest = "reads_of g' ops"
        have cs: "reads_of g (a # ops) = bytes @ ?rest" using Read hr False by simp
        have covered: ?thesis if "prefix T bytes"
        proof -
          from that obtain zs where "bytes = T @ zs" by (auto elim: prefixE)
          then show ?thesis by (simp add: cs)
        qed
        from hread_window [OF hr r0] show ?thesis
        proof
          assume "prefix (window g) bytes"
          with Cons.prems have "prefix T bytes" by (auto intro: prefix_order.trans)
          then show ?thesis by (rule covered)
        next
          assume "\<exists>j. bytes = take j (window g) \<and> window g' = drop j (window g)"
          then obtain j where b: "bytes = take j (window g)" and w': "window g' = drop j (window g)"
            by blast
          from Cons.prems obtain zs where wg: "window g = T @ zs" by (auto elim: prefixE)
          show ?thesis
          proof (cases "length T \<le> j")
            case True
            then have "prefix T bytes" by (simp add: b wg)
            then show ?thesis by (rule covered)
          next
            case False
            then have jl: "j < length T" by simp
            then have bt: "bytes = take j T" and lb: "length bytes = j" by (simp_all add: b wg)
            have "prefix (drop j T) (window g')" using jl by (simp add: w' wg)
            from Cons.IH [OF this]
            have ih: "take (length T - j) ?rest = take (length ?rest) (drop j T)" by simp
            have "take (length T) (bytes @ ?rest) = bytes @ take (length T - j) ?rest"
              using lb jl by simp
            also have "\<dots> = take j T @ take (length ?rest) (drop j T)" by (simp add: ih bt)
            also have "\<dots> = take (j + length ?rest) T" by (simp add: take_add)
            finally show ?thesis by (simp add: cs lb)
          qed
        qed
      qed
    qed (simp_all add: Read)
  qed
qed

lemma length_window: "hend f \<le> capacity f \<Longrightarrow> length (window f) = hend f - hbegin f"
  by (simp add: window_def capacity_def)

lemma fill_fits:
  assumes "fill f = Returned (r, f')" and "hbegin f \<le> hend f" and "hend f \<le> capacity f"
    and "reads_fit (backend f)"
  shows "hbegin f' \<le> hend f' \<and> hend f' \<le> capacity f' \<and> reads_fit (backend f')"
proof (cases "be_read (backend f)")
  case None
  with assms show ?thesis by (auto simp: fill_def capacity_def)
next
  case (Some rd)
  with assms(1) obtain data st' where
    call: "rd (bstate f) (capacity f - hend f) = Returned (r, data, st')"
    by (auto simp: fill_def split: outcome.splits if_splits)
  from assms(4) Some have "\<forall>st n r data st'. rd st n = Returned (r, data, st') \<longrightarrow>
             r \<le> int n \<and> (0 < r \<longrightarrow> length data = nat r)"
    by (simp add: reads_fit_def)
  with call have le: "r \<le> int (capacity f - hend f)" by blast
  from assms(1) Some call have "backend f' = backend f" "hbegin f' = hbegin f"
    "capacity f' = capacity f" "hend f' = (if 0 < r then hend f + nat r else hend f)"
    by (auto simp: fill_def capacity_def split: if_splits)
  with assms(2,3,4) le show ?thesis by auto
qed

lemma peek_fill_fits:
  assumes "peek_fill f want = Returned (r, f')" and "hbegin f \<le> hend f"
    and "hend f \<le> capacity f" and "reads_fit (backend f)"
  shows "hbegin f' \<le> hend f' \<and> hend f' \<le> capacity f' \<and> reads_fit (backend f')"
  using assms
proof (induction f want rule: peek_fill.induct)
  case (1 f want)
  show ?case
  proof (cases "want \<le> hend f - hbegin f \<or> at_eof f")
    case True
    with "1.prems" show ?thesis by (subst (asm) peek_fill.simps) auto
  next
    case False
    show ?thesis
    proof (cases "fill f")
      case AssertFailed
      with "1.prems" False show ?thesis by (subst (asm) peek_fill.simps) auto
    next
      case Waiting
      with "1.prems" False show ?thesis by (subst (asm) peek_fill.simps) auto
    next
      case (Returned x)
      obtain r1 f1 where x: "x = (r1, f1)" by (cases x) auto
      note fl = Returned [unfolded x]
      note ft = fill_fits [OF fl "1.prems"(2,3,4)]
      show ?thesis
      proof (cases "r1 \<le> 0")
        case True
        with "1.prems"(1) False fl have "f' = f1"
          by (subst (asm) peek_fill.simps) (auto split: if_splits)
        with ft show ?thesis by simp
      next
        case pos: False
        with "1.prems"(1) False fl have rec: "peek_fill f1 want = Returned (r, f')"
          by (subst (asm) peek_fill.simps) (auto split: if_splits)
        have a: "\<not> r1 < 0" "\<not> r1 = 0" using pos by simp_all
        from ft have b: "hbegin f1 \<le> hend f1" "hend f1 \<le> capacity f1" "reads_fit (backend f1)"
          by simp_all
        from "1.IH" [OF False fl [unfolded x [symmetric]] x [symmetric] a rec b]
        show ?thesis .
      qed
    qed
  qed
qed

lemma slide_fits:
  assumes "hbegin f \<le> hend f" and "hend f \<le> capacity f"
  shows "hbegin (slide f) \<le> hend (slide f) \<and> hend (slide f) \<le> capacity (slide f)
       \<and> backend (slide f) = backend f"
  using assms by (simp add: slide_def capacity_def)

lemma hpeek_fits:
  assumes pk: "hpeek f n = Returned (k, bytes, f')" and wf: "hbegin f \<le> hend f"
    "hend f \<le> capacity f" and be: "reads_fit (backend f)"
  shows "(if k < 0 then bytes = [] else length bytes = nat k)
       \<and> hbegin f' \<le> hend f' \<and> hend f' \<le> capacity f' \<and> reads_fit (backend f')"
proof (cases "err f \<noteq> 0 \<or> mode f \<noteq> ReadMode")
  case True
  with pk wf be show ?thesis by (auto simp: hpeek_def capacity_def split: if_splits)
next
  case ok: False
  let ?want = "min n (capacity f)"
  show ?thesis
  proof (cases "?want \<le> hend f - hbegin f")
    case True
    with pk ok have "k = int ?want" "bytes = take ?want (window f)" "f' = f"
      by (auto simp: hpeek_def Let_def)
    with True wf be length_window [OF wf(2)] show ?thesis by simp
  next
    case False
    from slide_fits [OF wf] be have sl: "hbegin (slide f) \<le> hend (slide f)"
      "hend (slide f) \<le> capacity (slide f)" "reads_fit (backend (slide f))" by simp_all
    show ?thesis
    proof (cases "peek_fill (slide f) ?want")
      case AssertFailed
      with pk ok False show ?thesis by (simp add: hpeek_def Let_def)
    next
      case Waiting
      with pk ok False show ?thesis by (simp add: hpeek_def Let_def)
    next
      case (Returned x)
      obtain r f2 where x: "x = (r, f2)" by (cases x) auto
      note pf = Returned [unfolded x]
      note ft = peek_fill_fits [OF pf sl]
      show ?thesis
      proof (cases "r < 0")
        case True
        with pk ok False pf have "k = - 1" "bytes = []" "f' = f2"
          by (auto simp: hpeek_def Let_def)
        with ft show ?thesis by simp
      next
        case nonneg: False
        let ?k = "min ?want (hend f2 - hbegin f2)"
        from pk ok False pf nonneg have "k = int ?k" "bytes = take ?k (window f2)" "f' = f2"
          by (auto simp: hpeek_def Let_def)
        moreover from ft have "length (window f2) = hend f2 - hbegin f2"
          by (simp add: length_window)
        ultimately show ?thesis using ft by simp
      qed
    qed
  qed
qed

lemma fd_reads_fit: "reads_fit fd_backend"
  by (auto simp: reads_fit_def fd_backend_def fd_read_def Let_def split: option.splits)

lemma refill_backend: "refill g = Returned (x, f2) \<Longrightarrow> backend f2 = backend g"
  using fill_frame(5) [of _ x f2] by (auto simp: refill_def)

lemma hread_backend:
  assumes "hread f n = Returned (r, bytes, f')"
  shows "backend f' = backend f"
  using assms
  by (auto simp: hread_def Let_def split: if_splits outcome.splits dest!: refill_backend)

text \<open>
  C5. Take a stream \<open>f\<close> that satisfies the invariant \<open>0 \<le> begin \<le> end \<le> capacity\<close> of the
  buffered layer, over any backend whose \<open>read\<close> keeps to its contract, in any state, and
  any size \<open>n\<close>. When \<^verbatim>\<open>hpeek(f, dst, n)\<close> returns \<open>k\<close>, \<^verbatim>\<open>htell\<close> is the same immediately
  after the call as immediately before it, \<open>k \<le> n\<close> and \<open>k \<le> capacity\<close>; a negative \<open>k\<close>
  comes with no bytes, and otherwise exactly \<open>k\<close> bytes are returned. The stream satisfies
  the invariant again, so all this holds across any number of interleaved peeks. And for
  every sequence \<open>ops\<close> of later calls, each an \<^verbatim>\<open>hread\<close> or a further \<^verbatim>\<open>hpeek\<close> of any
  size, the \<open>k\<close> bytes peeked are a prefix of the bytes the reads return. (Stated for both
  lengths: should the reads return fewer bytes than were peeked, those are a prefix of the
  bytes peeked.)
\<close>

theorem hpeek_keeps_position:
  assumes pk: "hpeek f n = Returned (k, bytes, f')"
    and wf: "hbegin f \<le> hend f" "hend f \<le> capacity f" and be: "reads_fit (backend f)"
  shows "htell f' = htell f \<and> k \<le> int n \<and> k \<le> int (capacity f)
       \<and> (if k < 0 then bytes = [] else length bytes = nat k)
       \<and> hbegin f' \<le> hend f' \<and> hend f' \<le> capacity f' \<and> reads_fit (backend f')
       \<and> take (length bytes) (reads_of f' ops) = take (length (reads_of f' ops)) bytes"
proof -
  note fr = hpeek_frame [OF pk]
  have "htell f' = htell f"
  proof (cases "mode f = WriteMode")
    case True
    with fr(1,2,4) show ?thesis by (simp add: htell_def)
  next
    case False
    with fr(1,2) show ?thesis by (simp add: htell_def)
  qed
  with fr(7,8) reads_of_prefix [OF fr(6)] hpeek_fits [OF pk wf be] show ?thesis by simp
qed

theorem hpeek_keeps_position_witness:
  "hbegin test_reader \<le> hend test_reader \<and> hend test_reader \<le> capacity test_reader
   \<and> reads_fit (backend test_reader)
   \<and> (case hpeek test_reader 3 of
      Returned (k, bytes, f') \<Rightarrow>
        k = 3 \<and> bytes = [30, 40, 50] \<and> length bytes = nat k
        \<and> htell test_reader = 2 \<and> htell f' = 2
        \<and> reads_of f' [Read 2, Peek 4, Read 10] = [30, 40, 50, 60, 70]
        \<and> take (length bytes) (reads_of f' [Read 2, Peek 4, Read 10])
          = take (length (reads_of f' [Read 2, Peek 4, Read 10])) bytes
    | AssertFailed \<Rightarrow> False
    | Waiting \<Rightarrow> False)"
proof -
  let ?f0 = "hfile_init 4 ReadMode fd_backend
               \<lparr> fd_fs = test_fs, fd_path = ''vcf.c'', fd_pos = 0, fd_errno = 0 \<rparr>"
  have wf: "hbegin test_reader \<le> hend test_reader" "hend test_reader \<le> capacity test_reader"
    by code_simp+
  have "backend test_reader = backend ?f0"
  proof (cases "hread ?f0 2")
    case (Returned x)
    obtain r bs f where x: "x = (r, bs, f)" by (cases x) auto
    from hread_backend [OF Returned [unfolded x]] Returned x show ?thesis
      by (simp add: test_reader_def)
  qed (simp_all add: test_reader_def)
  then have be: "reads_fit (backend test_reader)"
    using fd_reads_fit by (simp add: hfile_init_def)
  have ev: "(case hpeek test_reader 3 of
      Returned (k, bytes, f') \<Rightarrow>
        k = 3 \<and> bytes = [30, 40, 50] \<and> htell test_reader = 2
        \<and> reads_of f' [Read 2, Peek 4, Read 10] = [30, 40, 50, 60, 70]
    | AssertFailed \<Rightarrow> False
    | Waiting \<Rightarrow> False)"
    by code_simp
  then obtain k bytes f' where p: "hpeek test_reader 3 = Returned (k, bytes, f')"
    by (cases "hpeek test_reader 3") auto
  from hpeek_keeps_position [OF p wf be, of "[Read 2, Peek 4, Read 10]"] ev p wf be
  show ?thesis by simp
qed

section \<open>Reading a local file\<close>










section \<open>Writing through the buffer\<close>

lemma window_stage:
  assumes "hbegin f \<le> hend f" and "hend f + length xs \<le> capacity f"
  shows "window (f\<lparr> buffer := blit (buffer f) (hend f) xs, hend := hend f + length xs \<rparr>)
           = window f @ xs"
proof -
  define buf where "buf = buffer f"
  define b where "b = hbegin f"
  define e where "e = hend f"
  have le: "b \<le> e" "e + length xs \<le> length buf"
    using assms by (simp_all add: b_def e_def buf_def capacity_def)
  have bl: "blit buf e xs = take e buf @ xs @ drop (e + length xs) buf"
    using le by (simp add: blit_def)
  have "drop b (blit buf e xs) = drop b (take e buf) @ xs @ drop (e + length xs) buf"
    using le by (simp add: bl)
  moreover have "length (drop b (take e buf)) = e - b" using le by simp
  ultimately have "take (e + length xs - b) (drop b (blit buf e xs)) = drop b (take e buf) @ xs"
    using le by simp
  moreover have "take (e - b) (drop b buf) = drop b (take e buf)" by (simp add: drop_take)
  ultimately show ?thesis by (simp add: window_def buf_def b_def e_def)
qed

lemma flush_buffer_writing:
  assumes "writing good stored f D"
  shows "\<exists>f'. flush_buffer f = Returned (0, f') \<and> writing good stored f' D
           \<and> hbegin f' = 0 \<and> hend f' = 0 \<and> stored (bstate f') = D
           \<and> capacity f' = capacity f \<and> htell f' = htell f \<and> backend f' = backend f"
proof (cases "hend f \<le> hbegin f")
  case True
  with assms have w: "window f = []" by (simp add: window_def)
  from flush_buffer_empty [OF True] assms w show ?thesis
    by (auto simp: writing_def capacity_def window_def htell_def)
next
  case False
  from assms obtain wr where ok: "mode f = WriteMode" "err f = 0" "0 < capacity f"
    "hbegin f \<le> hend f" "hend f \<le> capacity f" "good (bstate f)"
    and D: "D = stored (bstate f) @ window f"
    and wr: "be_write (backend f) = Some wr"
    and app: "\<And>st data. good st \<Longrightarrow> data \<noteq> [] \<Longrightarrow>
        \<exists>st'. wr st data = Returned (int (length data), st') \<and> good st'
              \<and> stored st' = stored st @ data"
    and ap: "appends good stored (backend f)"
    unfolding writing_def appends_def by blast
  have lw: "length (window f) = hend f - hbegin f" using ok by (simp add: length_window)
  with False have ne: "window f \<noteq> []" by auto
  from app [OF ok(6) ne] obtain st' where
    w1: "wr (bstate f) (window f) = Returned (int (length (window f)), st')"
    and g': "good st'" and s': "stored st' = D" using D by auto
  let ?f2 = "f\<lparr> hbegin := hbegin f + nat (int (length (window f))),
      offset := offset f + int (length (window f)), bstate := st' \<rparr>"
  have step: "flush_buffer f = flush_buffer ?f2"
    using False wr w1 ne by (subst flush_buffer.simps) simp
  have e2: "hend ?f2 \<le> hbegin ?f2" using lw ok by simp
  let ?f' = "?f2\<lparr> hbegin := 0, hend := 0 \<rparr>"
  have fin: "flush_buffer f = Returned (0, ?f')"
    using step flush_buffer_empty [OF e2] by simp
  have "writing good stored ?f' D"
    using ok ap g' s' by (simp add: writing_def capacity_def window_def)
  moreover have "htell ?f' = htell f" using ok lw by (simp add: htell_def)
  ultimately show ?thesis using fin s' by (simp add: capacity_def)
qed

lemma hwrite_from_unfold:
  assumes "k = min (capacity f - hend f) (length data)"
    and "f1 = f\<lparr> buffer := blit (buffer f) (hend f) (take k data), hend := hend f + k \<rparr>"
  shows "hwrite_from f data =
     (if length data - k = 0 then Returned (0, f1)
      else
        (case flush_buffer f1 of
           Returned (r, f2) \<Rightarrow>
             if r < 0 then Returned (- 1, f2)
             else if capacity f2 - hend f2 = 0 then Returned (- 1, f2\<lparr> err := EIO \<rparr>)
             else hwrite_from f2 (drop k data)
         | AssertFailed \<Rightarrow> AssertFailed
         | Waiting \<Rightarrow> Waiting))"
  unfolding assms by (subst hwrite_from.simps) (simp add: Let_def)

lemma hwrite_from_writing:
  assumes "writing good stored f D"
  shows "\<exists>f'. hwrite_from f data = Returned (0, f') \<and> writing good stored f' (D @ data)
           \<and> htell f' = htell f + int (length data) \<and> backend f' = backend f
           \<and> capacity f' = capacity f"
  using assms
proof (induction f data arbitrary: D rule: hwrite_from.induct)
  case (1 f data)
  define k where "k = min (capacity f - hend f) (length data)"
  define f1 where "f1 = f\<lparr> buffer := blit (buffer f) (hend f) (take k data), hend := hend f + k \<rparr>"
  note unf = hwrite_from_unfold [OF k_def f1_def]
  from "1.prems" have ok: "mode f = WriteMode" "hbegin f \<le> hend f" "hend f \<le> capacity f"
    "0 < capacity f"
    and D: "D = stored (bstate f) @ window f"
    by (simp_all add: writing_def)
  have kk: "k \<le> length data" "hend f + k \<le> capacity f" using ok by (simp_all add: k_def)
  have lk: "length (take k data) = k" using kk by simp
  have w1: "window f1 = window f @ take k data"
    using window_stage [OF ok(2), of "take k data"] kk lk by (simp add: f1_def)
  have inv1: "writing good stored f1 (D @ take k data)"
    using "1.prems" kk unfolding writing_def w1
    by (simp add: f1_def capacity_def)
  have t1: "htell f1 = htell f + int k" using ok by (simp add: f1_def htell_def)
  have b1: "backend f1 = backend f" "capacity f1 = capacity f"
    by (simp_all add: f1_def capacity_def)
  show ?case
  proof (cases "length data - k = 0")
    case True
    then have "take k data = data" "k = length data" using kk by simp_all
    with unf True inv1 t1 b1 show ?thesis by auto
  next
    case False
    from flush_buffer_writing [OF inv1] obtain f2 where
      fl: "flush_buffer f1 = Returned (0, f2)" and inv2: "writing good stored f2 (D @ take k data)"
      and z: "hend f2 = 0" and c2: "capacity f2 = capacity f1" and t2: "htell f2 = htell f1"
      and b2: "backend f2 = backend f1"
      by blast
    have room: "\<not> capacity f2 - hend f2 = 0" using z c2 b1 ok by simp
    have nz: "\<not> (0::int) < 0" by simp
    from "1.IH" [OF k_def f1_def False fl refl nz room inv2]
    obtain f' where rec: "hwrite_from f2 (drop k data) = Returned (0, f')"
      and inv': "writing good stored f' ((D @ take k data) @ drop k data)"
      and t': "htell f' = htell f2 + int (length (drop k data))"
      and b': "backend f' = backend f2" "capacity f' = capacity f2"
      by blast
    have "hwrite_from f data = Returned (0, f')"
      using unf False fl room rec by simp
    moreover have "htell f' = htell f + int (length data)"
      using t' t2 t1 kk by simp
    ultimately show ?thesis using inv' b' b2 b1 c2 by simp
  qed
qed

lemma hwrite_writing:
  assumes "writing good stored f D"
  shows "\<exists>f'. hwrite f data = Returned (int (length data), f')
           \<and> writing good stored f' (D @ data) \<and> htell f' = htell f + int (length data)
           \<and> backend f' = backend f \<and> capacity f' = capacity f"
proof -
  from assms have ok: "err f = 0" "mode f = WriteMode" "be_write (backend f) \<noteq> None"
    by (auto simp: writing_def appends_def)
  from hwrite_from_writing [OF assms, of data] ok show ?thesis
    by (auto simp: hwrite_def)
qed



section \<open>Round trips through local files\<close>








section \<open>Writing to memory\<close>

lemma grow_bounds: "need \<le> grow c need \<and> c \<le> grow c need"
proof (induction c need rule: grow.induct)
  case (1 c need)
  show ?case
  proof (cases "need \<le> c")
    case True
    then show ?thesis by (subst grow.simps, simp)+
  next
    case False
    with "1.IH" have "need \<le> grow (max 1 (2 * c)) need" "max 1 (2 * c) \<le> grow (max 1 (2 * c)) need"
      by simp_all
    moreover have "grow c need = grow (max 1 (2 * c)) need"
      using False by (subst grow.simps) simp
    ultimately show ?thesis by simp
  qed
qed

lemma mem_write_appends:
  assumes g: "mem_good mb ml st" and ne: "data \<noteq> []"
  shows "\<exists>st'. mem_write st data = Returned (int (length data), st') \<and> mem_good mb ml st'
           \<and> mem_stored st' = mem_stored st @ data"
proof -
  define need where "need = mem_pos st + length data"
  define cap' where "cap' = grow (mem_cap st) need"
  define old where "old = block_of st"
  define block where "block = take cap' (old @ replicate (cap' - length old) 0)"
  define block' where "block' = take (mem_pos st) block @ data @ drop need block"
  define st' where "st' = st\<lparr> pmbuffer := Some block', pmlength := cap', mem_cap := cap',
      mem_pos := need \<rparr>"
  from g have m: "mem_mode st = WriteMode" by (simp add: mem_good_def)
  have w: "mem_write st data = Returned (int (length data), st')"
    using m by (simp add: mem_write_def Let_def need_def cap'_def old_def block_def block'_def st'_def)
  have gb: "need \<le> cap'" "mem_cap st \<le> cap'" using grow_bounds [of need "mem_cap st"]
    by (simp_all add: cap'_def)
  have np: "0 < need" "mem_pos st \<le> need" using ne by (simp_all add: need_def)
  have lb: "length block = cap'" by (simp add: block_def)
  have lb': "length block' = cap'" using lb gb np by (simp add: block'_def need_def)
  have pre: "take (mem_pos st) block = mem_stored st"
  proof (cases "mem_cap st = 0")
    case True
    with g show ?thesis by (simp add: mem_good_def mem_stored_def)
  next
    case False
    with g obtain b where b: "pmbuffer st = Some b" "length b = mem_cap st"
      and p: "mem_pos st \<le> mem_cap st" by (auto simp: mem_good_def)
    then have "old = b" by (simp add: old_def block_of_def)
    then have "take (mem_pos st) block = take (mem_pos st) b"
      using b p gb by (simp add: block_def min_absorb2)
    with b show ?thesis by (simp add: mem_stored_def block_of_def)
  qed
  have lp: "length (take (mem_pos st) block) = mem_pos st" using lb gb np by simp
  have "mem_stored st' = take need block'" by (simp add: mem_stored_def st'_def block_of_def)
  also have "\<dots> = take (mem_pos st) block @ data"
    using lp by (simp add: block'_def need_def)
  finally have s: "mem_stored st' = mem_stored st @ data" using pre by simp
  have "mem_good mb ml st'"
    using m gb np lb' by (simp add: mem_good_def st'_def)
  with w s show ?thesis by blast
qed

lemma mem_appends: "appends (mem_good mb ml) mem_stored mem_backend"
  unfolding appends_def
  by (rule exI [of _ mem_write]) (simp add: mem_backend_def mem_write_appends)

lemma hwrites_writing:
  "writing good stored f D \<Longrightarrow>
   \<exists>f'. hwrites f ds = Returned (True, f') \<and> writing good stored f' (D @ concat ds)
        \<and> htell f' = htell f + int (length (concat ds)) \<and> backend f' = backend f
        \<and> capacity f' = capacity f"
proof (induction ds arbitrary: f D)
  case Nil
  then show ?case by simp
next
  case (Cons d ds)
  from hwrite_writing [OF Cons.prems, of d] obtain f1 where
    w: "hwrite f d = Returned (int (length d), f1)" and inv: "writing good stored f1 (D @ d)"
    and t: "htell f1 = htell f + int (length d)" and b: "backend f1 = backend f"
      "capacity f1 = capacity f"
    by blast
  from Cons.IH [OF inv] w t b show ?case by auto
qed

text \<open>
  C7. A \<^verbatim>\<open>mem:\<close> stream opened in write mode on the caller's cells \<open>mbuffer\<close> and \<open>mlength\<close>,
  with a buffer of any capacity \<open>cap > 0\<close>, and any blocks \<open>ds\<close> written with \<^verbatim>\<open>hwrite\<close>. Every
  write succeeds and \<^verbatim>\<open>htell\<close> is the size written. During writing, either the backend has
  allocated nothing yet and the caller's cells are as they were, or \<open>*pmlength\<close> holds the
  allocated capacity, the size of the block \<open>*pmbuffer\<close> points to; the latter is the case
  once more than \<open>cap\<close> bytes have been written. \<^verbatim>\<open>hclose\<close> returns 0, and after it
  \<open>*pmlength\<close> equals the final written size, the first bytes of the block \<open>*pmbuffer\<close>
  points to are exactly the bytes written, and \<open>*pmbuffer\<close> is not null if anything was
  written.
\<close>

theorem mem_write_close:
  assumes "0 < cap"
  shows "\<exists>f1 st. hwrites (hopen_mem mbuffer mlength cap WriteMode) ds = Returned (True, f1)
           \<and> htell f1 = int (length (concat ds))
           \<and> (if mem_cap (bstate f1) = 0
               then pmbuffer (bstate f1) = mbuffer \<and> pmlength (bstate f1) = mlength
               else pmlength (bstate f1) = mem_cap (bstate f1)
                    \<and> length (block_of (bstate f1)) = mem_cap (bstate f1))
           \<and> (cap < length (concat ds) \<longrightarrow> mem_cap (bstate f1) \<noteq> 0)
           \<and> hclose f1 = Returned (0, st)
           \<and> pmlength st = length (concat ds)
           \<and> take (length (concat ds)) (block_of st) = concat ds
           \<and> (concat ds \<noteq> [] \<longrightarrow> pmbuffer st \<noteq> None)"
proof -
  let ?f0 = "hopen_mem mbuffer mlength cap WriteMode"
  let ?D = "concat ds"
  let ?good = "mem_good mbuffer mlength"
  have inv0: "writing ?good mem_stored ?f0 []"
    using assms mem_appends [of mbuffer mlength]
    by (simp add: hopen_mem_def hfile_init_def writing_def capacity_def window_def
        mem_good_def mem_stored_def)
  have t0: "htell ?f0 = 0" by (simp add: hopen_mem_def hfile_init_def htell_def)
  have b0: "backend ?f0 = mem_backend" "capacity ?f0 = cap"
    by (simp_all add: hopen_mem_def hfile_init_def capacity_def)
  from hwrites_writing [OF inv0, of ds] t0 b0 obtain f1 where
    w: "hwrites ?f0 ds = Returned (True, f1)" and inv1: "writing ?good mem_stored f1 ?D"
    and t1: "htell f1 = int (length ?D)" and b1: "backend f1 = mem_backend"
    and c1: "capacity f1 = cap"
    by auto
  from inv1 have g1: "?good (bstate f1)" and m1: "mode f1 = WriteMode"
    and D1: "?D = mem_stored (bstate f1) @ window f1" and e1: "hend f1 \<le> capacity f1"
    by (simp_all add: writing_def)
  have during: "if mem_cap (bstate f1) = 0
               then pmbuffer (bstate f1) = mbuffer \<and> pmlength (bstate f1) = mlength
               else pmlength (bstate f1) = mem_cap (bstate f1)
                    \<and> length (block_of (bstate f1)) = mem_cap (bstate f1)"
    using g1 by (auto simp: mem_good_def block_of_def)
  have alloc: "cap < length ?D \<longrightarrow> mem_cap (bstate f1) \<noteq> 0"
  proof (intro impI notI)
    assume big: "cap < length ?D" and z: "mem_cap (bstate f1) = 0"
    from z g1 have "mem_stored (bstate f1) = []" by (simp add: mem_good_def mem_stored_def)
    with D1 have "length ?D = length (window f1)" by simp
    also have "\<dots> \<le> cap" using e1 c1 by (simp add: length_window)
    finally show False using big by simp
  qed
  from flush_buffer_writing [OF inv1] obtain f2 where
    fl: "flush_buffer f1 = Returned (0, f2)" and inv2: "writing ?good mem_stored f2 ?D"
    and s2: "mem_stored (bstate f2) = ?D" and b2: "backend f2 = backend f1"
    by blast
  from inv2 have g2: "?good (bstate f2)" by (simp add: writing_def)
  define st where "st = (bstate f2)\<lparr> pmlength := mem_pos (bstate f2) \<rparr>"
  have c: "hclose f1 = Returned (0, st)"
    using fl m1 b1 b2 g2
    by (simp add: hclose_def close_flush_def mem_backend_def mem_close_def st_def mem_good_def)
  have pl: "mem_pos (bstate f2) \<le> length (block_of (bstate f2))"
    using g2 by (auto simp: mem_good_def block_of_def split: if_splits)
  have "length (mem_stored (bstate f2)) = mem_pos (bstate f2)"
    using pl by (simp add: mem_stored_def)
  with s2 have lenD: "length ?D = mem_pos (bstate f2)" by simp
  have a: "pmlength st = length ?D" using lenD by (simp add: st_def)
  have bl: "block_of st = block_of (bstate f2)" by (simp add: st_def block_of_def)
  have b: "take (length ?D) (block_of st) = ?D" using s2 lenD bl by (simp add: mem_stored_def)
  have d: "?D \<noteq> [] \<longrightarrow> pmbuffer st \<noteq> None"
  proof
    assume "?D \<noteq> []"
    with b have "block_of st \<noteq> []" by auto
    then show "pmbuffer st \<noteq> None" by (cases "pmbuffer st") (auto simp: block_of_def)
  qed
  from w t1 during alloc c a b d show ?thesis by blast
qed

theorem mem_write_close_witness:
  "(0 :: nat) < 4 \<and> 4 < length (concat [hello])
   \<and> (\<exists>f1 st. hwrites (hopen_mem None 999999 4 WriteMode) [hello] = Returned (True, f1)
         \<and> htell f1 = 14
         \<and> mem_cap (bstate f1) \<noteq> 0
         \<and> pmlength (bstate f1) = mem_cap (bstate f1)
         \<and> length (block_of (bstate f1)) = mem_cap (bstate f1)
         \<and> hclose f1 = Returned (0, st)
         \<and> pmlength st = 14
         \<and> take 14 (block_of st) = hello
         \<and> pmbuffer st \<noteq> None)"
proof -
  have c: "(0 :: nat) < 4" by simp
  have h: "concat [hello] = hello" "length hello = 14" "hello \<noteq> []"
    by (simp_all add: hello_def)
  from mem_write_close [OF c, of None 999999 "[hello]"] obtain f1 st where
    a: "hwrites (hopen_mem None 999999 4 WriteMode) [hello] = Returned (True, f1)"
      "htell f1 = int (length (concat [hello]))"
      "if mem_cap (bstate f1) = 0
       then pmbuffer (bstate f1) = None \<and> pmlength (bstate f1) = 999999
       else pmlength (bstate f1) = mem_cap (bstate f1)
            \<and> length (block_of (bstate f1)) = mem_cap (bstate f1)"
      "4 < length (concat [hello]) \<longrightarrow> mem_cap (bstate f1) \<noteq> 0"
      "hclose f1 = Returned (0, st)"
      "pmlength st = length (concat [hello])"
      "take (length (concat [hello])) (block_of st) = concat [hello]"
      "concat [hello] \<noteq> [] \<longrightarrow> pmbuffer st \<noteq> None"
    by blast
  from a(4) h have nz: "mem_cap (bstate f1) \<noteq> 0" by simp
  with a(3) have d: "pmlength (bstate f1) = mem_cap (bstate f1)"
    "length (block_of (bstate f1)) = mem_cap (bstate f1)" by simp_all
  from a(2,6,7) h have e: "htell f1 = 14" "pmlength st = 14" "take 14 (block_of st) = hello"
    by simp_all
  from a(8) h have n: "pmbuffer st \<noteq> None" by simp
  have l: "4 < length (concat [hello])" using h by simp
  from c l a(1) e(1) nz d a(5) e(2,3) n show ?thesis by blast
qed

end
